theory Spec2Isabelle
  imports Main "HOL-Library.Word" "HOL-Library.Monad_Syntax"
begin

unbundle bit_operations_syntax

section \<open>The cell grid of main.c\<close>

text \<open>
  Each cell is one \<open>uint8_t\<close>. Bit 0 says the cell is alive, bit 1 that it will be
  revived at the next tick, bit 2 that it will die at the next tick.
\<close>

type_synonym u8 = "8 word"

definition CELL_ALIVE :: u8 where "CELL_ALIVE = 1"
definition CELL_REVIVE :: u8 where "CELL_REVIVE = 2"
definition CELL_DIE :: u8 where "CELL_DIE = 4"

definition WINDOW_WIDTH :: int where "WINDOW_WIDTH = 1280"
definition WINDOW_HEIGHT :: int where "WINDOW_HEIGHT = 720"
definition PIXEL_SIZE :: int where "PIXEL_SIZE = 5"
definition GRID_WIDTH :: nat where "GRID_WIDTH = 256"
definition GRID_HEIGHT :: nat where "GRID_HEIGHT = 144"

text \<open>
  The arrays \<open>cells\<close> and \<open>previous_simul\<close> are lists of bytes. A C array access
  outside the array is undefined behaviour: the model returns \<open>None\<close> there, so that
  a result \<open>Some\<close> says that every access made was inside the array.
\<close>

definition cell_at :: "u8 list \<Rightarrow> nat \<Rightarrow> u8 option" where
  "cell_at cells i = (if i < length cells then Some (cells ! i) else None)"

definition cell_set :: "u8 list \<Rightarrow> nat \<Rightarrow> u8 \<Rightarrow> u8 list option" where
  "cell_set cells i v = (if i < length cells then Some (cells[i := v]) else None)"

text \<open>
  A \<open>for\<close> loop over the indices \<open>is\<close>, in order, whose body may be undefined.
\<close>

fun for_each :: "('i \<Rightarrow> 's \<Rightarrow> 's option) \<Rightarrow> 'i list \<Rightarrow> 's \<Rightarrow> 's option" where
  "for_each body [] s = Some s"
| "for_each body (i # is) s =
     (case body i s of None \<Rightarrow> None | Some s' \<Rightarrow> for_each body is s')"

subsection \<open>Counting live neighbours (lines 320 to 341)\<close>

text \<open>
  One guarded statement
  \<^verbatim>\<open>if (guard) if (cells[i] & CELL_ALIVE) live_neighbors++;\<close>
  The index is only read when the guard holds. The counter is a \<open>uint8_t\<close>.
\<close>

definition count_if :: "u8 list \<Rightarrow> bool \<Rightarrow> nat \<Rightarrow> u8 \<Rightarrow> u8 option" where
  "count_if cells guard i n =
     (if guard
      then (case cell_at cells i of
              None \<Rightarrow> None
            | Some c \<Rightarrow> Some (if c AND CELL_ALIVE \<noteq> 0 then n + 1 else n))
      else Some n)"

text \<open>
  The loop variables \<open>x\<close> and \<open>y\<close> run over \<open>0..<GRID_WIDTH\<close> and
  \<open>0..<GRID_HEIGHT\<close>, so they are naturals; every \<open>x - 1\<close> and \<open>y - 1\<close> stands
  behind a guard \<open>x \<noteq> 0\<close> or \<open>y \<noteq> 0\<close>.
\<close>

definition live_neighbors :: "u8 list \<Rightarrow> nat \<Rightarrow> nat \<Rightarrow> u8 option" where
  "live_neighbors cells x y = do {
     n \<leftarrow> count_if cells (x \<noteq> 0 \<and> y \<noteq> 0) ((x - 1) + GRID_WIDTH * (y - 1)) 0;
     n \<leftarrow> count_if cells (y \<noteq> 0) (x + GRID_WIDTH * (y - 1)) n;
     n \<leftarrow> count_if cells (y \<noteq> 0 \<and> x \<noteq> GRID_WIDTH - 1) ((x + 1) + GRID_WIDTH * (y - 1)) n;
     n \<leftarrow> count_if cells (x \<noteq> 0) ((x - 1) + GRID_WIDTH * y) n;
     n \<leftarrow> count_if cells (x \<noteq> GRID_WIDTH - 1) ((x + 1) + GRID_WIDTH * y) n;
     n \<leftarrow> count_if cells (x \<noteq> 0 \<and> y \<noteq> GRID_HEIGHT - 1) ((x - 1) + GRID_WIDTH * (y + 1)) n;
     n \<leftarrow> count_if cells (y \<noteq> GRID_HEIGHT - 1) (x + GRID_WIDTH * (y + 1)) n;
     count_if cells (x \<noteq> GRID_WIDTH - 1 \<and> y \<noteq> GRID_HEIGHT - 1)
       ((x + 1) + GRID_WIDTH * (y + 1)) n
   }"

subsection \<open>The evaluation pass (lines 316 to 363)\<close>

text \<open>The statement \<^verbatim>\<open>cells[i] |= flag;\<close>\<close>

definition or_flag :: "u8 list \<Rightarrow> nat \<Rightarrow> u8 \<Rightarrow> u8 list option" where
  "or_flag cells i flag = do { c \<leftarrow> cell_at cells i; cell_set cells i (c OR flag) }"

text \<open>The body of the inner loop; \<open>continue\<close> leaves the grid as it is.\<close>

definition eval_cell :: "nat \<Rightarrow> nat \<Rightarrow> u8 list \<Rightarrow> u8 list option" where
  "eval_cell x y cells = do {
     n \<leftarrow> live_neighbors cells x y;
     if n = 2 \<or> n = 3
     then do {
       c \<leftarrow> cell_at cells (x + GRID_WIDTH * y);
       if c AND CELL_ALIVE \<noteq> 0 then Some cells
       else if n = 3 then or_flag cells (x + GRID_WIDTH * y) CELL_REVIVE
       else Some cells }
     else or_flag cells (x + GRID_WIDTH * y) CELL_DIE
   }"

definition eval_pass :: "u8 list \<Rightarrow> u8 list option" where
  "eval_pass cells =
     for_each (\<lambda>y. for_each (\<lambda>x. eval_cell x y) [0..<GRID_WIDTH]) [0..<GRID_HEIGHT] cells"

subsection \<open>The commit pass (lines 366 to 379)\<close>

definition commit_cell :: "nat \<Rightarrow> nat \<Rightarrow> u8 list \<Rightarrow> u8 list option" where
  "commit_cell x y cells = do {
     c \<leftarrow> cell_at cells (x + GRID_WIDTH * y);
     if c AND CELL_REVIVE \<noteq> 0 then cell_set cells (x + GRID_WIDTH * y) CELL_ALIVE
     else do {
       c \<leftarrow> cell_at cells (x + GRID_WIDTH * y);
       if c AND CELL_DIE \<noteq> 0 then cell_set cells (x + GRID_WIDTH * y) 0
       else Some cells }
   }"

definition commit_pass :: "u8 list \<Rightarrow> u8 list option" where
  "commit_pass cells =
     for_each (\<lambda>y. for_each (\<lambda>x. commit_cell x y) [0..<GRID_WIDTH]) [0..<GRID_HEIGHT] cells"

text \<open>One generation advance: the evaluation pass, then the commit pass.\<close>

definition generation :: "u8 list \<Rightarrow> u8 list option" where
  "generation cells = do { cells' \<leftarrow> eval_pass cells; commit_pass cells' }"

section \<open>The rule of Life as the specification states it\<close>

text \<open>
  Coordinates are integers here, so that a neighbour of an edge cell can lie outside the
  grid, where it is not counted. The alive bit is the least significant bit.
\<close>

definition in_grid :: "int \<Rightarrow> int \<Rightarrow> bool" where
  "in_grid i j \<longleftrightarrow> 0 \<le> i \<and> i < int GRID_WIDTH \<and> 0 \<le> j \<and> j < int GRID_HEIGHT"

definition spec_alive :: "u8 list \<Rightarrow> int \<Rightarrow> int \<Rightarrow> bool" where
  "spec_alive cells i j \<longleftrightarrow> in_grid i j \<and> bit (cells ! nat (i + int GRID_WIDTH * j)) 0"

definition moore :: "(int \<times> int) list" where
  "moore = [(-1, -1), (0, -1), (1, -1), (-1, 0), (1, 0), (-1, 1), (0, 1), (1, 1)]"

definition spec_count :: "u8 list \<Rightarrow> int \<Rightarrow> int \<Rightarrow> nat" where
  "spec_count cells i j =
     length (filter (\<lambda>(di, dj). spec_alive cells (i + di) (j + dj)) moore)"

definition spec_next :: "u8 list \<Rightarrow> int \<Rightarrow> int \<Rightarrow> u8" where
  "spec_next cells i j =
     (let n = spec_count cells i j in
      if spec_alive cells i j then (if n = 2 \<or> n = 3 then 1 else 0)
      else (if n = 3 then 1 else 0))"

definition spec_generation :: "u8 list \<Rightarrow> u8 list" where
  "spec_generation cells =
     map (\<lambda>k. spec_next cells (int (k mod GRID_WIDTH)) (int (k div GRID_WIDTH)))
       [0..<GRID_WIDTH * GRID_HEIGHT]"

section \<open>Auxiliary notions for the proofs\<close>

text \<open>The flag that the evaluation pass adds to the cell \<open>(x, y)\<close> of a grid.\<close>

definition intent :: "u8 list \<Rightarrow> nat \<Rightarrow> nat \<Rightarrow> u8" where
  "intent cells x y =
     (let n = spec_count cells (int x) (int y) in
      if n = 2 \<or> n = 3
      then (if spec_alive cells (int x) (int y) then 0 else if n = 3 then CELL_REVIVE else 0)
      else CELL_DIE)"

text \<open>The grid after the evaluation pass has visited the cells in \<open>S\<close>.\<close>

definition marked :: "u8 list \<Rightarrow> (nat \<times> nat) set \<Rightarrow> u8 list" where
  "marked cells S =
     map (\<lambda>i. if (i mod GRID_WIDTH, i div GRID_WIDTH) \<in> S
              then cells ! i OR intent cells (i mod GRID_WIDTH) (i div GRID_WIDTH)
              else cells ! i) [0..<GRID_WIDTH * GRID_HEIGHT]"

text \<open>The evaluation and commit bodies run over the cells in any given order.\<close>

definition eval_order :: "(nat \<times> nat) list \<Rightarrow> u8 list \<Rightarrow> u8 list option" where
  "eval_order ps cells = for_each (\<lambda>(x, y). eval_cell x y) ps cells"

definition commit_order :: "(nat \<times> nat) list \<Rightarrow> u8 list \<Rightarrow> u8 list option" where
  "commit_order ps cells = for_each (\<lambda>(x, y). commit_cell x y) ps cells"

text \<open>The order of the two nested loops: rows from the top, each from the left.\<close>

definition row_major :: "(nat \<times> nat) list" where
  "row_major = concat (map (\<lambda>y. map (\<lambda>x. (x, y)) [0..<GRID_WIDTH]) [0..<GRID_HEIGHT])"

text \<open>What the commit pass makes of one byte, and the grid after it has visited \<open>S\<close>.\<close>

definition commit_val :: "u8 \<Rightarrow> u8" where
  "commit_val c =
     (if c AND CELL_REVIVE \<noteq> 0 then CELL_ALIVE else if c AND CELL_DIE \<noteq> 0 then 0 else c)"

definition committed :: "u8 list \<Rightarrow> (nat \<times> nat) set \<Rightarrow> u8 list" where
  "committed cells S =
     map (\<lambda>i. if (i mod GRID_WIDTH, i div GRID_WIDTH) \<in> S then commit_val (cells ! i)
              else cells ! i)
       [0..<GRID_WIDTH * GRID_HEIGHT]"

text \<open>The grid whose alive cells are exactly those of \<open>S\<close>, and the two blinkers.\<close>

definition grid_of :: "(nat \<times> nat) set \<Rightarrow> u8 list" where
  "grid_of S =
     map (\<lambda>k. if (k mod GRID_WIDTH, k div GRID_WIDTH) \<in> S then 1 else 0)
       [0..<GRID_WIDTH * GRID_HEIGHT]"

definition blinker_h :: "nat \<Rightarrow> nat \<Rightarrow> u8 list" where
  "blinker_h x y = grid_of {(x - 1, y), (x, y), (x + 1, y)}"

definition blinker_v :: "nat \<Rightarrow> nat \<Rightarrow> u8 list" where
  "blinker_v x y = grid_of {(x, y - 1), (x, y), (x, y + 1)}"

section \<open>The program state and the main loop\<close>

text \<open>
  \<open>tick\<close> and \<open>max_tick\<close> are C \<open>int\<close>s. Signed overflow is undefined in C, so
  \<open>++\<close> and \<open>--\<close> return \<open>None\<close> where they would leave the range of \<open>int\<close>.
\<close>

definition INT_MAX :: int where "INT_MAX = 2147483647"
definition INT_MIN :: int where "INT_MIN = - 2147483648"

definition incr :: "int \<Rightarrow> int option" where
  "incr i = (if i < INT_MAX then Some (i + 1) else None)"

definition decr :: "int \<Rightarrow> int option" where
  "decr i = (if INT_MIN < i then Some (i - 1) else None)"

text \<open>Integer division of C rounds towards zero.\<close>

definition c_div :: "int \<Rightarrow> int \<Rightarrow> int" where
  "c_div a b = sgn a * sgn b * (\<bar>a\<bar> div \<bar>b\<bar>)"

datatype key = SDLK_F1 | SDLK_F2 | SDLK_F3 | SDLK_F4 | SDLK_F5 | SDLK_OTHER

datatype button = SDL_BUTTON_LEFT | SDL_BUTTON_RIGHT | SDL_BUTTON_OTHER

text \<open>
  The events the loop reads from \<open>SDL_PollEvent\<close>. A key event carries what the dialogs
  answer if the handler opens them: the button of \<open>SDL_ShowMessageBox\<close> (\<open>None\<close> when
  the call fails), and the path of the file dialog (\<open>Some\<close> when it returns
  \<open>NFD_OKAY\<close>).
\<close>

datatype event =
    SDL_QUIT
  | SDL_KEYUP key "int option" "string option"
  | SDL_MOUSEBUTTONDOWN button
  | SDL_MOUSEBUTTONUP button
  | SDL_MOUSEWHEEL int
  | SDL_OTHER

text \<open>
  The globals and the locals of \<open>main\<close> that the loop changes, and the disk: the
  contents of the files that exist, and for every path what opening it for writing gives,
  \<open>None\<close> when \<open>fopen\<close> fails and otherwise the number of bytes the device accepts
  before a write falls short. The program never changes the latter.
  The screen buffer is left out: lines 264 to 283 and 386 to 396 only read \<open>cells\<close>.
\<close>

record state =
  cells :: "u8 list"
  previous_simul :: "u8 list"
  s_started :: bool
  tick :: int
  max_tick :: int
  quit :: bool
  add_btn_down :: bool
  rem_btn_down :: bool
  files :: "string \<rightharpoonup> u8 list"
  writable :: "string \<Rightarrow> nat option"

text \<open>Global arrays start zeroed; lines 91 to 123 set the locals.\<close>

definition init :: "(string \<rightharpoonup> u8 list) \<Rightarrow> (string \<Rightarrow> nat option) \<Rightarrow> state" where
  "init fs w = \<lparr> cells = replicate (GRID_WIDTH * GRID_HEIGHT) 0,
                 previous_simul = replicate (GRID_WIDTH * GRID_HEIGHT) 0,
                 s_started = False, tick = 0, max_tick = 1, quit = False,
                 add_btn_down = False, rem_btn_down = False, files = fs, writable = w \<rparr>"

text \<open>The loop of lines 154 to 157.\<close>

definition clear_cells :: "u8 list \<Rightarrow> u8 list option" where
  "clear_cells c = for_each (\<lambda>i c. cell_set c i 0) [0..<GRID_WIDTH * GRID_HEIGHT] c"

text \<open>
  \<open>fwrite (buf, sz, nmemb, fp)\<close> on a fresh file, on a device that accepts \<open>room\<close>
  bytes, leaves the first \<open>sz * nmemb\<close> bytes of the buffer in the file, or only the
  first \<open>room\<close> of them when the write falls short; the program ignores the count that
  \<open>fwrite\<close> returns. \<open>fread (buf, sz, nmemb, fp)\<close> stores the complete objects the
  file holds, at most \<open>nmemb\<close>, in file order, and leaves the rest of the buffer alone;
  the bytes of a trailing partial object are indeterminate in C, so the model gives
  \<open>None\<close> there. The program does not test what \<open>fopen\<close> returns: when it fails,
  for writing or for reading (the file does not exist), the calls on the null pointer
  that follow are undefined, \<open>None\<close> in the model.
\<close>

definition fwrite :: "u8 list \<Rightarrow> nat \<Rightarrow> nat \<Rightarrow> nat \<Rightarrow> u8 list option" where
  "fwrite buf sz nmemb room =
     (if sz * nmemb \<le> length buf then Some (take (min (sz * nmemb) room) buf) else None)"

definition fread :: "u8 list \<Rightarrow> nat \<Rightarrow> nat \<Rightarrow> u8 list \<Rightarrow> u8 list option" where
  "fread buf sz nmemb file =
     (let got = min nmemb (length file div sz) in
      if length buf < sz * nmemb then None
      else if got < nmemb \<and> length file mod sz \<noteq> 0 then None
      else Some (take (sz * got) file @ drop (sz * got) buf))"

text \<open>Lines 175 to 189: \<open>sizeof(cells) / sizeof(uint8_t)\<close> records of one byte.\<close>

definition save_state :: "int \<Rightarrow> string \<Rightarrow> state \<Rightarrow> state option" where
  "save_state btn save_path st =
     (case writable st save_path of
        None \<Rightarrow> None
      | Some room \<Rightarrow> do {
          bytes \<leftarrow> (if btn = 1 then fwrite (cells st) 1 (GRID_WIDTH * GRID_HEIGHT) room
                    else fwrite (previous_simul st) 1 (GRID_WIDTH * GRID_HEIGHT) room);
          Some (st\<lparr>files := (files st)(save_path \<mapsto> bytes)\<rparr>) })"

text \<open>Lines 202 to 210: \<open>sizeof(cells) / sizeof(uint32_t)\<close> records of four bytes.\<close>

definition load_state :: "string \<Rightarrow> state \<Rightarrow> state option" where
  "load_state simul_path st =
     (case files st simul_path of
        None \<Rightarrow> None
      | Some file \<Rightarrow> do {
          c \<leftarrow> fread (cells st) 4 (GRID_WIDTH * GRID_HEIGHT div 4) file;
          Some (st\<lparr>cells := c\<rparr>) })"

text \<open>
  The \<open>switch\<close> of lines 131 to 260. \<open>memcpy\<close> copies all of \<open>cells\<close> into
  \<open>previous_simul\<close>, an array of the same size.
\<close>

fun handle_event :: "event \<Rightarrow> state \<Rightarrow> state option" where
  "handle_event SDL_QUIT st = Some (st\<lparr>quit := True\<rparr>)"
| "handle_event (SDL_KEYUP keysym box path) st =
     (if keysym = SDLK_F1 then
        (let st = st\<lparr>s_started := \<not> s_started st\<rparr> in
         if s_started st then Some (st\<lparr>previous_simul := cells st\<rparr>) else Some st)
      else if \<not> s_started st then
        (if keysym = SDLK_F2 then do { c \<leftarrow> clear_cells (cells st); Some (st\<lparr>cells := c\<rparr>) }
         else if keysym = SDLK_F3 then
           (case box of
              None \<Rightarrow> Some st
            | Some btn \<Rightarrow>
                (case path of None \<Rightarrow> Some st | Some save_path \<Rightarrow> save_state btn save_path st))
         else if keysym = SDLK_F4 then
           (case path of None \<Rightarrow> Some st | Some simul_path \<Rightarrow> load_state simul_path st)
         else Some st)
      else Some st)"
| "handle_event (SDL_MOUSEBUTTONDOWN b) st =
     (if b = SDL_BUTTON_LEFT then Some (st\<lparr>add_btn_down := True\<rparr>)
      else if b = SDL_BUTTON_RIGHT then Some (st\<lparr>rem_btn_down := True\<rparr>)
      else Some st)"
| "handle_event (SDL_MOUSEBUTTONUP b) st =
     (if b = SDL_BUTTON_LEFT then Some (st\<lparr>add_btn_down := False\<rparr>)
      else if b = SDL_BUTTON_RIGHT then Some (st\<lparr>rem_btn_down := False\<rparr>)
      else Some st)"
| "handle_event (SDL_MOUSEWHEEL wy) st =
     (if wy < 0 then do { m \<leftarrow> incr (max_tick st); Some (st\<lparr>max_tick := m\<rparr>) }
      else if wy > 0 then do {
        m \<leftarrow> decr (max_tick st);
        Some (st\<lparr>max_tick := (if m \<le> 0 then 1 else m)\<rparr>) }
      else Some st)"
| "handle_event SDL_OTHER st = Some st"

text \<open>
  Lines 286 to 307. \<open>mx\<close> and \<open>my\<close> are what \<open>SDL_GetMouseState\<close> returns. The
  write \<^verbatim>\<open>cells[cx + GRID_WIDTH * cy] = v\<close> is undefined outside the array.
\<close>

definition mouse_cell :: "int \<Rightarrow> int \<Rightarrow> u8 \<Rightarrow> state \<Rightarrow> state option" where
  "mouse_cell cx cy v st =
     (let k = cx + int GRID_WIDTH * cy in
      if 0 \<le> k \<and> k < int (length (cells st))
      then Some (st\<lparr>cells := (cells st)[nat k := v]\<rparr>) else None)"

definition draw_cells :: "int \<Rightarrow> int \<Rightarrow> state \<Rightarrow> state option" where
  "draw_cells mx my st =
     (if \<not> s_started st then
        (let cx = c_div mx PIXEL_SIZE; cy = c_div my PIXEL_SIZE in
         if add_btn_down st then mouse_cell cx cy CELL_ALIVE st
         else if rem_btn_down st then mouse_cell cx cy 0 st
         else Some st)
      else Some st)"

text \<open>Lines 310 to 384.\<close>

definition update_simulation :: "state \<Rightarrow> state option" where
  "update_simulation st =
     (if s_started st then
        (if tick st > max_tick st then do {
           c \<leftarrow> generation (cells st);
           Some (st\<lparr>cells := c, tick := 0\<rparr>) }
         else Some st)
      else Some st)"

text \<open>Line 399.\<close>

definition end_frame :: "state \<Rightarrow> state option" where
  "end_frame st = do { t \<leftarrow> incr (tick st); Some (st\<lparr>tick := t\<rparr>) }"

text \<open>
  One iteration of the main loop, given the events polled in it and the mouse position.
\<close>

type_synonym input = "event list \<times> int \<times> int"

fun frame :: "input \<Rightarrow> state \<Rightarrow> state option" where
  "frame (evs, mx, my) st = do {
     st \<leftarrow> for_each handle_event evs st;
     st \<leftarrow> draw_cells mx my st;
     st \<leftarrow> update_simulation st;
     end_frame st
   }"

text \<open>\<^verbatim>\<open>while (!quit)\<close> over the inputs of finitely many iterations.\<close>

fun main_loop :: "input list \<Rightarrow> state \<Rightarrow> state option" where
  "main_loop [] st = Some st"
| "main_loop (inp # inps) st =
     (if quit st then Some st
      else case frame inp st of None \<Rightarrow> None | Some st' \<Rightarrow> main_loop inps st')"

section \<open>Inputs on which the loop is defined\<close>

text \<open>
  A state is sized when both arrays have their declared sizes and the threshold is
  positive. An event is plain when it loads no file and does not raise the threshold; an
  input is plain when its events are and the mouse is inside the window. An event opens
  its file, on a disk \<open>w\<close>, when it is not a save or the path it saves to can be opened
  for writing.
\<close>

definition sized :: "state \<Rightarrow> bool" where
  "sized s \<longleftrightarrow> length (cells s) = GRID_WIDTH * GRID_HEIGHT \<and>
     length (previous_simul s) = GRID_WIDTH * GRID_HEIGHT \<and> 1 \<le> max_tick s"

fun plain_event :: "event \<Rightarrow> bool" where
  "plain_event (SDL_KEYUP keysym box path) = (keysym \<noteq> SDLK_F4 \<or> path = None)"
| "plain_event (SDL_MOUSEWHEEL wy) = (0 \<le> wy)"
| "plain_event _ = True"

fun opens_file :: "(string \<Rightarrow> nat option) \<Rightarrow> event \<Rightarrow> bool" where
  "opens_file w (SDL_KEYUP keysym box (Some save_path)) =
     (keysym \<noteq> SDLK_F3 \<or> box = None \<or> w save_path \<noteq> None)"
| "opens_file w _ = True"

definition plain_input :: "input \<Rightarrow> bool" where
  "plain_input inp =
     (case inp of (evs, mx, my) \<Rightarrow>
        0 \<le> mx \<and> mx < WINDOW_WIDTH \<and> 0 \<le> my \<and> my < WINDOW_HEIGHT \<and>
        list_all plain_event evs)"

section \<open>Neighbour counting\<close>

lemma alive_bit: "(c AND CELL_ALIVE \<noteq> 0) = bit (c::u8) 0"
  by (simp add: CELL_ALIVE_def and_one_eq bit_0 mod_2_eq_odd)

lemma idx_bound: "x < GRID_WIDTH \<Longrightarrow> y < GRID_HEIGHT \<Longrightarrow> x + GRID_WIDTH * y < GRID_WIDTH * GRID_HEIGHT"
proof -
  assume a: "x < GRID_WIDTH" "y < GRID_HEIGHT"
  have "x + GRID_WIDTH * y < GRID_WIDTH * Suc y" using a by simp
  also have "\<dots> \<le> GRID_WIDTH * GRID_HEIGHT" using a by (intro mult_le_mono2) simp
  finally show ?thesis .
qed

lemma count_if_spec:
  assumes "length cs = GRID_WIDTH * GRID_HEIGHT"
    and "g \<longleftrightarrow> in_grid i j" and "g \<Longrightarrow> k = nat (i + int GRID_WIDTH * j)"
  shows "count_if cs g k n = Some (n + (if spec_alive cs i j then 1 else 0))"
proof (cases g)
  case False
  then show ?thesis using assms by (simp add: count_if_def spec_alive_def)
next
  case True
  then have ig: "in_grid i j" using assms by simp
  then have "nat i < GRID_WIDTH" "nat j < GRID_HEIGHT" by (auto simp: in_grid_def)
  from idx_bound[OF this] have "nat i + GRID_WIDTH * nat j < GRID_WIDTH * GRID_HEIGHT" .
  moreover have "nat (i + int GRID_WIDTH * j) = nat i + GRID_WIDTH * nat j"
    using ig by (simp add: in_grid_def nat_add_distrib nat_mult_distrib)
  ultimately have "k < length cs" using assms True by simp
  then show ?thesis using True ig assms(3)
    by (simp add: count_if_def cell_at_def spec_alive_def alive_bit)
qed

lemma length_filter_sum: "length (filter P xs) = (\<Sum>x\<leftarrow>xs. if P x then 1 else 0)"
  by (induction xs) auto

lemma live_neighbors_spec:
  assumes len: "length cs = GRID_WIDTH * GRID_HEIGHT"
    and x: "x < GRID_WIDTH" and y: "y < GRID_HEIGHT"
  shows "live_neighbors cs x y = Some (of_nat (spec_count cs (int x) (int y)))"
proof -
  note c = count_if_spec[OF len]
  have 1: "count_if cs (x \<noteq> 0 \<and> y \<noteq> 0) ((x - 1) + GRID_WIDTH * (y - 1)) n
      = Some (n + (if spec_alive cs (int x + -1) (int y + -1) then 1 else 0))" for n
    using x y by (intro c) (auto simp: in_grid_def nat_add_distrib nat_mult_distrib nat_diff_distrib)
  have 2: "count_if cs (y \<noteq> 0) (x + GRID_WIDTH * (y - 1)) n
      = Some (n + (if spec_alive cs (int x + 0) (int y + -1) then 1 else 0))" for n
    using x y by (intro c) (auto simp: in_grid_def nat_add_distrib nat_mult_distrib nat_diff_distrib)
  have 3: "count_if cs (y \<noteq> 0 \<and> x \<noteq> GRID_WIDTH - 1) ((x + 1) + GRID_WIDTH * (y - 1)) n
      = Some (n + (if spec_alive cs (int x + 1) (int y + -1) then 1 else 0))" for n
    using x y by (intro c) (auto simp: in_grid_def nat_add_distrib nat_mult_distrib nat_diff_distrib)
  have 4: "count_if cs (x \<noteq> 0) ((x - 1) + GRID_WIDTH * y) n
      = Some (n + (if spec_alive cs (int x + -1) (int y + 0) then 1 else 0))" for n
    using x y by (intro c) (auto simp: in_grid_def nat_add_distrib nat_mult_distrib nat_diff_distrib)
  have 5: "count_if cs (x \<noteq> GRID_WIDTH - 1) ((x + 1) + GRID_WIDTH * y) n
      = Some (n + (if spec_alive cs (int x + 1) (int y + 0) then 1 else 0))" for n
    using x y by (intro c) (auto simp: in_grid_def nat_add_distrib nat_mult_distrib nat_diff_distrib)
  have 6: "count_if cs (x \<noteq> 0 \<and> y \<noteq> GRID_HEIGHT - 1) ((x - 1) + GRID_WIDTH * (y + 1)) n
      = Some (n + (if spec_alive cs (int x + -1) (int y + 1) then 1 else 0))" for n
    using x y by (intro c) (auto simp: in_grid_def nat_add_distrib nat_mult_distrib nat_diff_distrib)
  have 7: "count_if cs (y \<noteq> GRID_HEIGHT - 1) (x + GRID_WIDTH * (y + 1)) n
      = Some (n + (if spec_alive cs (int x + 0) (int y + 1) then 1 else 0))" for n
    using x y by (intro c) (auto simp: in_grid_def nat_add_distrib nat_mult_distrib nat_diff_distrib)
  have 8: "count_if cs (x \<noteq> GRID_WIDTH - 1 \<and> y \<noteq> GRID_HEIGHT - 1) ((x + 1) + GRID_WIDTH * (y + 1)) n
      = Some (n + (if spec_alive cs (int x + 1) (int y + 1) then 1 else 0))" for n
    using x y by (intro c) (auto simp: in_grid_def nat_add_distrib nat_mult_distrib nat_diff_distrib)
  show ?thesis
    unfolding live_neighbors_def 1 2 3 4 5 6 7 8 spec_count_def moore_def length_filter_sum
    by (simp add: if_distrib[of of_nat])
qed

lemma spec_count_le8: "spec_count cs i j \<le> 8"
proof -
  have "spec_count cs i j \<le> length moore"
    unfolding spec_count_def by (rule length_filter_le)
  then show ?thesis by (simp add: moore_def)
qed

lemma u8_of_nat_eq: "n \<le> 8 \<Longrightarrow> m \<le> 8 \<Longrightarrow> (of_nat n :: u8) = of_nat m \<longleftrightarrow> n = m"
  by (simp add: word_of_nat_eq_iff take_bit_nat_eq_self)

lemma count_eq2: "(of_nat (spec_count cs i j) :: u8) = 2 \<longleftrightarrow> spec_count cs i j = 2"
  using u8_of_nat_eq[of "spec_count cs i j" 2] spec_count_le8[of cs i j] by simp

lemma count_eq3: "(of_nat (spec_count cs i j) :: u8) = 3 \<longleftrightarrow> spec_count cs i j = 3"
  using u8_of_nat_eq[of "spec_count cs i j" 3] spec_count_le8[of cs i j] by simp

lemma spec_alive_nat:
  "x < GRID_WIDTH \<Longrightarrow> y < GRID_HEIGHT \<Longrightarrow>
   spec_alive cs (int x) (int y) = bit (cs ! (x + GRID_WIDTH * y)) 0"
  by (simp add: spec_alive_def in_grid_def nat_add_distrib nat_mult_distrib)

lemma eval_cell_closed:
  assumes len: "length cs = GRID_WIDTH * GRID_HEIGHT"
    and x: "x < GRID_WIDTH" and y: "y < GRID_HEIGHT"
  shows "eval_cell x y cs =
    Some (cs[x + GRID_WIDTH * y := cs ! (x + GRID_WIDTH * y) OR intent cs x y])"
proof -
  have k: "x + GRID_WIDTH * y < length cs" using idx_bound[OF x y] len by simp
  show ?thesis
    using k
    by (simp add: eval_cell_def live_neighbors_spec[OF len x y] count_eq2 count_eq3
        cell_at_def cell_set_def or_flag_def alive_bit spec_alive_nat[OF x y] intent_def Let_def)
qed

lemma for_each_append:
  "for_each f (xs @ ys) s = (case for_each f xs s of None \<Rightarrow> None | Some s' \<Rightarrow> for_each f ys s')"
  by (induction xs arbitrary: s) (auto split: option.splits)

lemma for_each_row: "for_each (\<lambda>x. f x y) xs s = for_each (\<lambda>(x, y). f x y) (map (\<lambda>x. (x, y)) xs) s"
  by (induction xs arbitrary: s) (auto split: option.splits)

lemma for_each_nested:
  "for_each (\<lambda>y. for_each (\<lambda>x. f x y) xs) ys s =
   for_each (\<lambda>(x, y). f x y) (concat (map (\<lambda>y. map (\<lambda>x. (x, y)) xs) ys)) s"
  by (induction ys arbitrary: s) (auto simp: for_each_append for_each_row split: option.splits)

lemma eval_pass_order: "eval_pass cs = eval_order row_major cs"
  by (simp add: eval_pass_def eval_order_def row_major_def for_each_nested)

lemma set_row_major: "set row_major = {(x, y). x < GRID_WIDTH \<and> y < GRID_HEIGHT}"
  by (auto simp: row_major_def)

lemma same_bit0_spec_alive:
  assumes "length g = GRID_WIDTH * GRID_HEIGHT" "length g' = GRID_WIDTH * GRID_HEIGHT"
    and "\<forall>i<GRID_WIDTH * GRID_HEIGHT. bit (g ! i) 0 = bit (g' ! i) 0"
  shows "spec_alive g i j = spec_alive g' i j"
proof (cases "in_grid i j")
  case False
  then show ?thesis by (simp add: spec_alive_def)
next
  case True
  then have "nat i < GRID_WIDTH" "nat j < GRID_HEIGHT" by (auto simp: in_grid_def)
  from idx_bound[OF this] have "nat i + GRID_WIDTH * nat j < GRID_WIDTH * GRID_HEIGHT" .
  moreover have "nat (i + int GRID_WIDTH * j) = nat i + GRID_WIDTH * nat j"
    using True by (simp add: in_grid_def nat_add_distrib nat_mult_distrib)
  ultimately show ?thesis using assms(3) by (simp add: spec_alive_def)
qed

lemma same_bit0_intent:
  assumes "length g = GRID_WIDTH * GRID_HEIGHT" "length g' = GRID_WIDTH * GRID_HEIGHT"
    and "\<forall>i<GRID_WIDTH * GRID_HEIGHT. bit (g ! i) 0 = bit (g' ! i) 0"
  shows "intent g x y = intent g' x y"
proof -
  have "spec_alive g = spec_alive g'"
    by (intro ext) (rule same_bit0_spec_alive[OF assms])
  then show ?thesis by (simp add: intent_def spec_count_def Let_def)
qed

lemma intent_bit0: "\<not> bit (intent cs x y) 0"
  by (simp add: intent_def Let_def CELL_REVIVE_def CELL_DIE_def bit_0)

lemma length_marked: "length (marked cs S) = GRID_WIDTH * GRID_HEIGHT"
  by (simp add: marked_def)

lemma marked_bit0:
  "i < GRID_WIDTH * GRID_HEIGHT \<Longrightarrow> bit (marked cs S ! i) 0 = bit (cs ! i) 0"
  by (simp add: marked_def bit_or_iff intent_bit0)

lemma cell_coords:
  "x < GRID_WIDTH \<Longrightarrow> (x + GRID_WIDTH * y) mod GRID_WIDTH = x"
  "x < GRID_WIDTH \<Longrightarrow> (x + GRID_WIDTH * y) div GRID_WIDTH = y"
  by simp_all

lemma coords_cell:
  "(i mod GRID_WIDTH, i div GRID_WIDTH) = (x, y) \<Longrightarrow> i = x + GRID_WIDTH * y"
  by auto

lemma marked_step:
  assumes len: "length cs = GRID_WIDTH * GRID_HEIGHT"
    and x: "x < GRID_WIDTH" and y: "y < GRID_HEIGHT"
  shows "eval_cell x y (marked cs S) = Some (marked cs (insert (x, y) S))"
proof -
  let ?m = "marked cs S" and ?k = "x + GRID_WIDTH * y"
  have k: "?k < GRID_WIDTH * GRID_HEIGHT" by (rule idx_bound[OF x y])
  have i: "intent ?m x y = intent cs x y"
    by (rule same_bit0_intent) (simp_all add: length_marked len marked_bit0)
  have "?m[?k := ?m ! ?k OR intent cs x y] = marked cs (insert (x, y) S)"
  proof (rule nth_equalityI)
    show "length (?m[?k := ?m ! ?k OR intent cs x y]) = length (marked cs (insert (x, y) S))"
      by (simp add: length_marked)
  next
    fix i assume "i < length (?m[?k := ?m ! ?k OR intent cs x y])"
    then have il: "i < GRID_WIDTH * GRID_HEIGHT" by (simp add: length_marked)
    show "?m[?k := ?m ! ?k OR intent cs x y] ! i = marked cs (insert (x, y) S) ! i"
    proof (cases "i = ?k")
      case True
      then show ?thesis using k x by (simp add: length_marked) (simp add: marked_def or.assoc)
    next
      case False
      then have "(i mod GRID_WIDTH, i div GRID_WIDTH) \<noteq> (x, y)" using coords_cell by blast
      then show ?thesis using False il by (auto simp: marked_def)
    qed
  qed
  then show ?thesis
    using eval_cell_closed[OF length_marked x y, of cs S] i by simp
qed

lemma eval_order_closed:
  assumes len: "length cs = GRID_WIDTH * GRID_HEIGHT"
    and ps: "\<forall>(x, y) \<in> set ps. x < GRID_WIDTH \<and> y < GRID_HEIGHT"
  shows "eval_order ps cs = Some (marked cs (set ps))"
  using ps
proof (induction ps rule: rev_induct)
  case Nil
  have "marked cs {} = cs"
    by (rule nth_equalityI) (simp_all add: marked_def len)
  then show ?case by (simp add: eval_order_def)
next
  case (snoc p ps)
  obtain x y where p: "p = (x, y)" by (cases p)
  have xy: "x < GRID_WIDTH" "y < GRID_HEIGHT" using snoc.prems p by auto
  have "eval_order ps cs = Some (marked cs (set ps))" using snoc by simp
  then show ?case
    using marked_step[OF len xy, of "set ps"]
    by (simp add: eval_order_def for_each_append p)
qed

lemma commit_val_idem: "commit_val (commit_val c) = commit_val c"
  by (simp add: commit_val_def CELL_ALIVE_def CELL_REVIVE_def CELL_DIE_def)

lemma commit_cell_closed:
  assumes "x + GRID_WIDTH * y < length cs"
  shows "commit_cell x y cs =
    Some (cs[x + GRID_WIDTH * y := commit_val (cs ! (x + GRID_WIDTH * y))])"
  using assms by (simp add: commit_cell_def cell_at_def cell_set_def commit_val_def)

lemma length_committed: "length (committed cs S) = GRID_WIDTH * GRID_HEIGHT"
  by (simp add: committed_def)

lemma committed_step:
  assumes x: "x < GRID_WIDTH" and y: "y < GRID_HEIGHT"
  shows "commit_cell x y (committed cs S) = Some (committed cs (insert (x, y) S))"
proof -
  let ?m = "committed cs S" and ?k = "x + GRID_WIDTH * y"
  have k: "?k < GRID_WIDTH * GRID_HEIGHT" by (rule idx_bound[OF x y])
  have "?m[?k := commit_val (?m ! ?k)] = committed cs (insert (x, y) S)"
  proof (rule nth_equalityI)
    show "length (?m[?k := commit_val (?m ! ?k)]) = length (committed cs (insert (x, y) S))"
      by (simp add: length_committed)
  next
    fix i assume "i < length (?m[?k := commit_val (?m ! ?k)])"
    then have il: "i < GRID_WIDTH * GRID_HEIGHT" by (simp add: length_committed)
    show "?m[?k := commit_val (?m ! ?k)] ! i = committed cs (insert (x, y) S) ! i"
    proof (cases "i = ?k")
      case True
      then show ?thesis using k x
        by (simp add: length_committed) (simp add: committed_def commit_val_idem)
    next
      case False
      then have "(i mod GRID_WIDTH, i div GRID_WIDTH) \<noteq> (x, y)" using coords_cell by blast
      then show ?thesis using False il by (auto simp: committed_def)
    qed
  qed
  then show ?thesis
    using commit_cell_closed[of x y ?m] k by (simp add: length_committed)
qed

lemma commit_order_closed:
  assumes len: "length cs = GRID_WIDTH * GRID_HEIGHT"
    and ps: "\<forall>(x, y) \<in> set ps. x < GRID_WIDTH \<and> y < GRID_HEIGHT"
  shows "commit_order ps cs = Some (committed cs (set ps))"
  using ps
proof (induction ps rule: rev_induct)
  case Nil
  have "committed cs {} = cs"
    by (rule nth_equalityI) (simp_all add: committed_def len)
  then show ?case by (simp add: commit_order_def)
next
  case (snoc p ps)
  obtain x y where p: "p = (x, y)" by (cases p)
  have xy: "x < GRID_WIDTH" "y < GRID_HEIGHT" using snoc.prems p by auto
  have "commit_order ps cs = Some (committed cs (set ps))" using snoc by simp
  then show ?case
    using committed_step[OF xy, of cs "set ps"]
    by (simp add: commit_order_def for_each_append p)
qed

lemma commit_pass_order: "commit_pass cs = commit_order row_major cs"
  by (simp add: commit_pass_def commit_order_def row_major_def for_each_nested)

lemma row_major_bounds: "\<forall>(x, y) \<in> set row_major. x < GRID_WIDTH \<and> y < GRID_HEIGHT"
  by (simp add: set_row_major)

lemma GRID_WIDTH_pos: "0 < GRID_WIDTH" by (simp add: GRID_WIDTH_def)

lemma coords_in_grid:
  "i < GRID_WIDTH * GRID_HEIGHT \<Longrightarrow> (i mod GRID_WIDTH, i div GRID_WIDTH) \<in> set row_major"
  by (simp add: set_row_major GRID_WIDTH_pos less_mult_imp_div_less mult.commute)

lemma eval_pass_closed:
  assumes len: "length cs = GRID_WIDTH * GRID_HEIGHT"
  shows "eval_pass cs =
    Some (map (\<lambda>i. cs ! i OR intent cs (i mod GRID_WIDTH) (i div GRID_WIDTH))
            [0..<GRID_WIDTH * GRID_HEIGHT])"
proof -
  have "marked cs (set row_major) =
    map (\<lambda>i. cs ! i OR intent cs (i mod GRID_WIDTH) (i div GRID_WIDTH))
      [0..<GRID_WIDTH * GRID_HEIGHT]"
    unfolding marked_def by (rule map_cong) (simp_all add: coords_in_grid)
  then show ?thesis
    using eval_order_closed[OF len row_major_bounds] by (simp add: eval_pass_order)
qed

lemma commit_pass_closed:
  assumes len: "length cs = GRID_WIDTH * GRID_HEIGHT"
  shows "commit_pass cs = Some (map commit_val cs)"
proof -
  have "committed cs (set row_major) = map (\<lambda>i. commit_val (cs ! i)) [0..<GRID_WIDTH * GRID_HEIGHT]"
    unfolding committed_def by (rule map_cong) (simp_all add: coords_in_grid)
  also have "\<dots> = map commit_val cs"
    by (rule nth_equalityI) (simp_all add: len)
  finally show ?thesis
    using commit_order_closed[OF len row_major_bounds] by (simp add: commit_pass_order)
qed

lemma generation_closed:
  assumes len: "length cs = GRID_WIDTH * GRID_HEIGHT"
  shows "generation cs =
    Some (map (\<lambda>i. commit_val (cs ! i OR intent cs (i mod GRID_WIDTH) (i div GRID_WIDTH)))
            [0..<GRID_WIDTH * GRID_HEIGHT])"
  by (simp add: generation_def eval_pass_closed[OF len] commit_pass_closed)

lemma commit_intent:
  assumes "c = 0 \<or> c = 1" and "spec_alive cs i j = bit c 0"
    and "it = (let n = spec_count cs i j in
      if n = 2 \<or> n = 3
      then (if spec_alive cs i j then 0 else if n = 3 then CELL_REVIVE else 0)
      else CELL_DIE)"
  shows "commit_val (c OR it) = spec_next cs i j"
  using assms
  by (auto simp: commit_val_def spec_next_def Let_def CELL_ALIVE_def CELL_REVIVE_def CELL_DIE_def)

lemma generation_spec:
  assumes len: "length cs = GRID_WIDTH * GRID_HEIGHT"
    and bytes: "\<forall>c \<in> set cs. c = 0 \<or> c = 1"
  shows "generation cs = Some (spec_generation cs)"
proof -
  have "map (\<lambda>i. commit_val (cs ! i OR intent cs (i mod GRID_WIDTH) (i div GRID_WIDTH)))
            [0..<GRID_WIDTH * GRID_HEIGHT] = spec_generation cs"
    unfolding spec_generation_def
  proof (rule map_cong[OF refl])
    fix i assume "i \<in> set [0..<GRID_WIDTH * GRID_HEIGHT]"
    then have i: "i < GRID_WIDTH * GRID_HEIGHT" by simp
    let ?x = "i mod GRID_WIDTH" and ?y = "i div GRID_WIDTH"
    have xy: "?x < GRID_WIDTH" "?y < GRID_HEIGHT"
      using coords_in_grid[OF i] by (simp_all add: set_row_major)
    have c: "cs ! i = 0 \<or> cs ! i = 1" using bytes i len by simp
    have a: "spec_alive cs (int ?x) (int ?y) = bit (cs ! i) 0"
      using spec_alive_nat[OF xy, of cs] by simp
    show "commit_val (cs ! i OR intent cs ?x ?y) = spec_next cs (int ?x) (int ?y)"
      by (rule commit_intent[OF c a]) (simp add: intent_def)
  qed
  then show ?thesis by (simp add: generation_closed[OF len])
qed

section \<open>One generation is the rule of Life\<close>

lemma spec_generation_nth:
  assumes x: "x < GRID_WIDTH" and y: "y < GRID_HEIGHT"
  shows "spec_generation cs ! (x + GRID_WIDTH * y) = spec_next cs (int x) (int y)"
  using idx_bound[OF x y] x by (simp add: spec_generation_def)

text \<open>
  C1. On a grid of \<open>GRID_WIDTH * GRID_HEIGHT\<close> bytes that are all 0 or 1, the
  evaluation pass followed by the commit pass returns, and the new grid is the one of the
  rule B3/S23 with neighbours outside the grid left out: an alive cell with 2 or 3 live
  neighbours is 1, any other alive cell is 0, a dead cell with exactly 3 live neighbours
  is 1, any other dead cell is 0.
\<close>

theorem generation_is_life:
  assumes "length cs = GRID_WIDTH * GRID_HEIGHT" and "\<forall>c \<in> set cs. c = 0 \<or> c = 1"
  shows "generation cs = Some (spec_generation cs) \<and>
    (\<forall>x<GRID_WIDTH. \<forall>y<GRID_HEIGHT.
       spec_generation cs ! (x + GRID_WIDTH * y) =
         (if spec_alive cs (int x) (int y)
          then (if spec_count cs (int x) (int y) = 2 \<or> spec_count cs (int x) (int y) = 3
                then 1 else 0)
          else (if spec_count cs (int x) (int y) = 3 then 1 else 0)))"
  using generation_spec[OF assms] by (simp add: spec_generation_nth spec_next_def Let_def)

theorem generation_is_life_witness:
  "length (1 # replicate (GRID_WIDTH * GRID_HEIGHT - 1) (0::u8)) = GRID_WIDTH * GRID_HEIGHT \<and>
   set (1 # replicate (GRID_WIDTH * GRID_HEIGHT - 1) (0::u8)) \<subseteq> {0, 1} \<and>
   generation (1 # replicate (GRID_WIDTH * GRID_HEIGHT - 1) 0) =
     Some (spec_generation (1 # replicate (GRID_WIDTH * GRID_HEIGHT - 1) 0))"
  using generation_is_life[of "1 # replicate (GRID_WIDTH * GRID_HEIGHT - 1) 0"]
  by (simp add: GRID_WIDTH_def GRID_HEIGHT_def)

section \<open>The neighbour count is clamped at the edges\<close>

lemma spec_count_corner: "spec_count cs 0 0 \<le> 3"
proof -
  have "spec_count cs 0 0 =
    length (filter (\<lambda>(di, dj). spec_alive cs (0 + di) (0 + dj)) [(1, 0), (0, 1), (1, 1)])"
    by (simp add: spec_count_def moore_def spec_alive_def in_grid_def)
  also have "\<dots> \<le> length [(1::int, 0::int), (0, 1), (1, 1)]" by (rule length_filter_le)
  finally show ?thesis by simp
qed

text \<open>
  C3. For a grid of \<open>GRID_WIDTH * GRID_HEIGHT\<close> bytes and a cell \<open>(x, y)\<close> inside it,
  the counting code reads inside the array only (it returns \<open>Some\<close>), and its result is
  the number of alive cells among those of the eight Moore neighbours that lie inside the
  grid; the result is at most 8, and at most 3 for the corner \<open>(0, 0)\<close>.
\<close>

theorem live_neighbors_clamped:
  assumes "length cs = GRID_WIDTH * GRID_HEIGHT" and "x < GRID_WIDTH" and "y < GRID_HEIGHT"
  shows "\<exists>n. live_neighbors cs x y = Some n \<and>
    unat n = spec_count cs (int x) (int y) \<and> unat n \<le> 8 \<and>
    (x = 0 \<and> y = 0 \<longrightarrow> unat n \<le> 3)"
proof -
  let ?k = "spec_count cs (int x) (int y)"
  have k8: "?k \<le> 8" by (rule spec_count_le8)
  have u: "unat (of_nat ?k :: u8) = ?k"
    using k8 by (simp add: unat_of_nat take_bit_nat_eq_self)
  have "x = 0 \<and> y = 0 \<longrightarrow> ?k \<le> 3" using spec_count_corner[of cs] by auto
  then show ?thesis using live_neighbors_spec[OF assms] u k8 by auto
qed

theorem live_neighbors_clamped_witness:
  "\<exists>n. live_neighbors (replicate (GRID_WIDTH * GRID_HEIGHT) 1) 0 0 = Some n \<and>
    unat n = spec_count (replicate (GRID_WIDTH * GRID_HEIGHT) 1) 0 0 \<and> unat n \<le> 3"
  using live_neighbors_clamped[of "replicate (GRID_WIDTH * GRID_HEIGHT) 1" 0 0]
  by (auto simp: GRID_WIDTH_def GRID_HEIGHT_def)

section \<open>The evaluation pass does not depend on the order of the visit\<close>

lemma alive_and_eq: "(a AND CELL_ALIVE = b AND CELL_ALIVE) \<longleftrightarrow> bit (a::u8) 0 = bit (b::u8) 0"
  by (simp add: CELL_ALIVE_def and_one_eq mod_2_eq_odd bit_0)

lemma same_bit0_live_neighbors:
  assumes "length g = GRID_WIDTH * GRID_HEIGHT" "length g' = GRID_WIDTH * GRID_HEIGHT"
    and "\<forall>i<GRID_WIDTH * GRID_HEIGHT. bit (g ! i) 0 = bit (g' ! i) 0"
    and "x < GRID_WIDTH" "y < GRID_HEIGHT"
  shows "live_neighbors g x y = live_neighbors g' x y"
proof -
  have "spec_alive g = spec_alive g'"
    by (intro ext) (rule same_bit0_spec_alive[OF assms(1-3)])
  then show ?thesis
    using assms by (simp add: live_neighbors_spec spec_count_def)
qed

lemma intent_cases: "intent cs x y = 0 \<or> intent cs x y = CELL_REVIVE \<or> intent cs x y = CELL_DIE"
  by (simp add: intent_def Let_def)

lemma marked_nth_cases:
  assumes "i < GRID_WIDTH * GRID_HEIGHT"
  shows "marked cs S ! i = cs ! i \<or> marked cs S ! i = cs ! i OR CELL_REVIVE
    \<or> marked cs S ! i = cs ! i OR CELL_DIE"
  using assms intent_cases[of cs "i mod GRID_WIDTH" "i div GRID_WIDTH"]
  by (auto simp: marked_def)

text \<open>
  C2. Let the evaluation body visit cells of the grid in any order \<open>ps\<close> (every prefix
  of the pass in the order of the code is such a list). It returns a grid in which the
  alive bit of every cell is that of the starting grid, each byte having at most gained
  the REVIVE or the DIE flag; so every neighbour count taken in the new grid is the count
  in the starting grid. When \<open>ps\<close> visits exactly the cells of the grid, in whatever
  order and for whatever starting bytes, the result is the result of the pass of the code.
\<close>

theorem evaluation_order_irrelevant:
  assumes len: "length cs = GRID_WIDTH * GRID_HEIGHT"
    and ps: "\<forall>(x, y) \<in> set ps. x < GRID_WIDTH \<and> y < GRID_HEIGHT"
  shows "\<exists>g. eval_order ps cs = Some g \<and>
    (\<forall>i<GRID_WIDTH * GRID_HEIGHT.
        g ! i AND CELL_ALIVE = cs ! i AND CELL_ALIVE \<and>
        (g ! i = cs ! i \<or> g ! i = cs ! i OR CELL_REVIVE \<or> g ! i = cs ! i OR CELL_DIE)) \<and>
    (\<forall>x<GRID_WIDTH. \<forall>y<GRID_HEIGHT. live_neighbors g x y = live_neighbors cs x y) \<and>
    (set ps = set row_major \<longrightarrow> eval_pass cs = Some g)"
proof (intro exI conjI)
  show "eval_order ps cs = Some (marked cs (set ps))"
    by (rule eval_order_closed[OF len ps])
  show "\<forall>i<GRID_WIDTH * GRID_HEIGHT.
      marked cs (set ps) ! i AND CELL_ALIVE = cs ! i AND CELL_ALIVE \<and>
      (marked cs (set ps) ! i = cs ! i \<or> marked cs (set ps) ! i = cs ! i OR CELL_REVIVE
        \<or> marked cs (set ps) ! i = cs ! i OR CELL_DIE)"
    using marked_nth_cases[of _ cs "set ps"] by (simp add: alive_and_eq marked_bit0)
  show "\<forall>x<GRID_WIDTH. \<forall>y<GRID_HEIGHT.
      live_neighbors (marked cs (set ps)) x y = live_neighbors cs x y"
    by (intro allI impI same_bit0_live_neighbors) (simp_all add: length_marked len marked_bit0)
  show "set ps = set row_major \<longrightarrow> eval_pass cs = Some (marked cs (set ps))"
    using eval_order_closed[OF len row_major_bounds] by (simp add: eval_pass_order)
qed

theorem evaluation_order_irrelevant_witness:
  "\<exists>g. eval_order (rev row_major) (replicate (GRID_WIDTH * GRID_HEIGHT) 1) = Some g \<and>
     eval_pass (replicate (GRID_WIDTH * GRID_HEIGHT) 1) = Some g"
proof -
  have "\<forall>(x, y) \<in> set (rev row_major). x < GRID_WIDTH \<and> y < GRID_HEIGHT"
    by (simp add: set_row_major)
  from evaluation_order_irrelevant[OF _ this, of "replicate (GRID_WIDTH * GRID_HEIGHT) 1"]
  show ?thesis by auto
qed

section \<open>The blinker\<close>

lemma length_grid_of: "length (grid_of S) = GRID_WIDTH * GRID_HEIGHT"
  by (simp add: grid_of_def)

lemma grid_of_bytes: "\<forall>c \<in> set (grid_of S). c = 0 \<or> c = 1"
  by (auto simp: grid_of_def)

lemma spec_alive_grid_of:
  "spec_alive (grid_of S) i j \<longleftrightarrow> in_grid i j \<and> (nat i, nat j) \<in> S"
proof (cases "in_grid i j")
  case False
  then show ?thesis by (simp add: spec_alive_def)
next
  case True
  then have ij: "nat i < GRID_WIDTH" "nat j < GRID_HEIGHT" by (auto simp: in_grid_def)
  have k: "nat (i + int GRID_WIDTH * j) = nat i + GRID_WIDTH * nat j"
    using True by (simp add: in_grid_def nat_add_distrib nat_mult_distrib)
  show ?thesis
    using True idx_bound[OF ij] ij(1) by (simp add: spec_alive_def k grid_of_def bit_0)
qed

lemma spec_generation_grid_of:
  assumes "\<And>a b. a < GRID_WIDTH \<Longrightarrow> b < GRID_HEIGHT \<Longrightarrow>
    spec_next (grid_of S) (int a) (int b) = (if (a, b) \<in> S' then 1 else 0)"
  shows "spec_generation (grid_of S) = grid_of S'"
  unfolding spec_generation_def grid_of_def
proof (rule map_cong[OF refl])
  fix k assume "k \<in> set [0..<GRID_WIDTH * GRID_HEIGHT]"
  then have "(k mod GRID_WIDTH, k div GRID_WIDTH) \<in> set row_major"
    by (simp add: coords_in_grid)
  then have "k mod GRID_WIDTH < GRID_WIDTH" "k div GRID_WIDTH < GRID_HEIGHT"
    by (simp_all add: set_row_major)
  from assms[OF this]
  show "spec_next (map (\<lambda>k. if (k mod GRID_WIDTH, k div GRID_WIDTH) \<in> S then 1 else 0)
            [0..<GRID_WIDTH * GRID_HEIGHT])
         (int (k mod GRID_WIDTH)) (int (k div GRID_WIDTH)) =
        (if (k mod GRID_WIDTH, k div GRID_WIDTH) \<in> S' then 1 else 0)"
    by (simp add: grid_of_def)
qed

lemma spec_alive_blinker_h:
  assumes "1 \<le> x" "x + 1 < GRID_WIDTH" "y < GRID_HEIGHT"
  shows "spec_alive (blinker_h x y) i j \<longleftrightarrow>
    j = int y \<and> (i = int x - 1 \<or> i = int x \<or> i = int x + 1)"
  using assms unfolding blinker_h_def spec_alive_grid_of in_grid_def by auto

lemma spec_alive_blinker_v:
  assumes "1 \<le> y" "y + 1 < GRID_HEIGHT" "x < GRID_WIDTH"
  shows "spec_alive (blinker_v x y) i j \<longleftrightarrow>
    i = int x \<and> (j = int y - 1 \<or> j = int y \<or> j = int y + 1)"
  using assms unfolding blinker_v_def spec_alive_grid_of in_grid_def by auto

lemma blinker_rule_h:
  fixes i j X Y :: int
  assumes A: "\<And>a b. A a b \<longleftrightarrow> b = Y \<and> (a = X - 1 \<or> a = X \<or> a = X + 1)"
  shows "(let n = length (filter (\<lambda>(di, dj). A (i + di) (j + dj)) moore) in
      if A i j then (if n = 2 \<or> n = 3 then 1 else 0) else (if n = 3 then 1 else 0)) =
    (if i = X \<and> (j = Y - 1 \<or> j = Y \<or> j = Y + 1) then 1 else (0::u8))"
proof -
  have ci: "i < X - 2 \<or> X + 2 < i \<or> i = X - 2 \<or> i = X - 1 \<or> i = X \<or> i = X + 1 \<or> i = X + 2"
    by linarith
  have cj: "j < Y - 1 \<or> Y + 1 < j \<or> j = Y - 1 \<or> j = Y \<or> j = Y + 1"
    by linarith
  show ?thesis
    using ci cj unfolding moore_def A Let_def
    by (elim disjE) simp_all
qed

lemma blinker_rule_v:
  fixes i j X Y :: int
  assumes A: "\<And>a b. A a b \<longleftrightarrow> a = X \<and> (b = Y - 1 \<or> b = Y \<or> b = Y + 1)"
  shows "(let n = length (filter (\<lambda>(di, dj). A (i + di) (j + dj)) moore) in
      if A i j then (if n = 2 \<or> n = 3 then 1 else 0) else (if n = 3 then 1 else 0)) =
    (if j = Y \<and> (i = X - 1 \<or> i = X \<or> i = X + 1) then 1 else (0::u8))"
proof -
  have cj: "j < Y - 2 \<or> Y + 2 < j \<or> j = Y - 2 \<or> j = Y - 1 \<or> j = Y \<or> j = Y + 1 \<or> j = Y + 2"
    by linarith
  have ci: "i < X - 1 \<or> X + 1 < i \<or> i = X - 1 \<or> i = X \<or> i = X + 1"
    by linarith
  show ?thesis
    using ci cj unfolding moore_def A Let_def
    by (elim disjE) simp_all
qed

lemma generation_blinker_h:
  assumes "1 \<le> x" "x + 1 < GRID_WIDTH" "1 \<le> y" "y + 1 < GRID_HEIGHT"
  shows "generation (blinker_h x y) = Some (blinker_v x y)"
proof -
  have y: "y < GRID_HEIGHT" using assms by simp
  have "spec_generation (blinker_h x y) = blinker_v x y"
    unfolding blinker_h_def blinker_v_def
  proof (rule spec_generation_grid_of)
    fix a b assume "a < GRID_WIDTH" "b < GRID_HEIGHT"
    have "spec_next (blinker_h x y) (int a) (int b) =
      (if int a = int x \<and> (int b = int y - 1 \<or> int b = int y \<or> int b = int y + 1) then 1 else 0)"
      unfolding spec_next_def spec_count_def
      by (rule blinker_rule_h) (rule spec_alive_blinker_h[OF assms(1,2) y])
    also have "\<dots> = (if (a, b) \<in> {(x, y - 1), (x, y), (x, y + 1)} then 1 else 0)"
      using assms by auto
    finally show "spec_next (grid_of {(x - 1, y), (x, y), (x + 1, y)}) (int a) (int b) =
      (if (a, b) \<in> {(x, y - 1), (x, y), (x, y + 1)} then 1 else 0)"
      by (simp add: blinker_h_def)
  qed
  then show ?thesis
    using generation_spec[of "blinker_h x y"]
    by (simp add: blinker_h_def length_grid_of grid_of_bytes)
qed

lemma generation_blinker_v:
  assumes "1 \<le> x" "x + 1 < GRID_WIDTH" "1 \<le> y" "y + 1 < GRID_HEIGHT"
  shows "generation (blinker_v x y) = Some (blinker_h x y)"
proof -
  have x: "x < GRID_WIDTH" using assms by simp
  have "spec_generation (blinker_v x y) = blinker_h x y"
    unfolding blinker_h_def blinker_v_def
  proof (rule spec_generation_grid_of)
    fix a b assume "a < GRID_WIDTH" "b < GRID_HEIGHT"
    have "spec_next (blinker_v x y) (int a) (int b) =
      (if int b = int y \<and> (int a = int x - 1 \<or> int a = int x \<or> int a = int x + 1) then 1 else 0)"
      unfolding spec_next_def spec_count_def
      by (rule blinker_rule_v) (rule spec_alive_blinker_v[OF assms(3,4) x])
    also have "\<dots> = (if (a, b) \<in> {(x - 1, y), (x, y), (x + 1, y)} then 1 else 0)"
      using assms by auto
    finally show "spec_next (grid_of {(x, y - 1), (x, y), (x, y + 1)}) (int a) (int b) =
      (if (a, b) \<in> {(x - 1, y), (x, y), (x + 1, y)} then 1 else 0)"
      by (simp add: blinker_v_def)
  qed
  then show ?thesis
    using generation_spec[of "blinker_v x y"]
    by (simp add: blinker_v_def length_grid_of grid_of_bytes)
qed

lemma grid_of_nth:
  assumes "a < GRID_WIDTH" "b < GRID_HEIGHT"
  shows "grid_of S ! (a + GRID_WIDTH * b) = (if (a, b) \<in> S then 1 else 0)"
  using idx_bound[OF assms] assms(1) by (simp add: grid_of_def)

text \<open>
  C9. \<open>blinker_h x y\<close> is the grid of 0/1 bytes whose alive cells are exactly
  \<open>(x - 1, y)\<close>, \<open>(x, y)\<close> and \<open>(x + 1, y)\<close>, and \<open>blinker_v x y\<close> the one whose
  alive cells are exactly \<open>(x, y - 1)\<close>, \<open>(x, y)\<close> and \<open>(x, y + 1)\<close>. When the
  middle cell is not on an edge of the grid, one generation advance turns the horizontal
  line into the vertical one, and a second advance gives the horizontal line back.
\<close>

theorem blinker_period_2:
  assumes "1 \<le> x" "x + 1 < GRID_WIDTH" "1 \<le> y" "y + 1 < GRID_HEIGHT"
  shows "generation (blinker_h x y) = Some (blinker_v x y) \<and>
    generation (blinker_v x y) = Some (blinker_h x y) \<and>
    (generation (blinker_h x y) \<bind> generation) = Some (blinker_h x y) \<and>
    length (blinker_h x y) = GRID_WIDTH * GRID_HEIGHT \<and>
    (\<forall>a<GRID_WIDTH. \<forall>b<GRID_HEIGHT.
       blinker_h x y ! (a + GRID_WIDTH * b) =
         (if b = y \<and> (a = x - 1 \<or> a = x \<or> a = x + 1) then 1 else 0) \<and>
       blinker_v x y ! (a + GRID_WIDTH * b) =
         (if a = x \<and> (b = y - 1 \<or> b = y \<or> b = y + 1) then 1 else 0))"
  using generation_blinker_h[OF assms] generation_blinker_v[OF assms]
  by (auto simp: blinker_h_def blinker_v_def grid_of_nth length_grid_of)

theorem blinker_period_2_witness:
  "generation (blinker_h 5 7) = Some (blinker_v 5 7) \<and>
   generation (blinker_v 5 7) = Some (blinker_h 5 7) \<and>
   (generation (blinker_h 5 7) \<bind> generation) = Some (blinker_h 5 7)"
  using blinker_period_2[of 5 7] by (simp add: GRID_WIDTH_def GRID_HEIGHT_def)

section \<open>The speed never falls below one tick\<close>

lemma for_each_invariant:
  assumes "for_each body is s = Some s'" and "P s"
    and "\<And>i s s'. i \<in> set is \<Longrightarrow> P s \<Longrightarrow> body i s = Some s' \<Longrightarrow> P s'"
  shows "P s'"
  using assms
proof (induction "is" arbitrary: s)
  case Nil
  then show ?case by simp
next
  case (Cons i "is")
  from Cons.prems(1) obtain s1 where s1: "body i s = Some s1" and r: "for_each body is s1 = Some s'"
    by (auto split: option.splits)
  have "P s1" using Cons.prems(3)[OF _ Cons.prems(2) s1] by simp
  show ?case
  proof (rule Cons.IH[OF r \<open>P s1\<close>])
    fix j t t' assume "j \<in> set is" "P t" "body j t = Some t'"
    then show "P t'" using Cons.prems(3)[of j t t'] by simp
  qed
qed

lemma handle_event_max_tick:
  assumes "handle_event e st = Some st'" and "1 \<le> max_tick st"
  shows "1 \<le> max_tick st'"
proof (cases e)
  case (SDL_KEYUP k box path)
  then show ?thesis using assms
    by (auto simp: Let_def save_state_def load_state_def bind_eq_Some_conv
        split: if_splits option.splits)
next
  case (SDL_MOUSEWHEEL wy)
  then show ?thesis using assms
    by (auto simp: incr_def decr_def bind_eq_Some_conv split: if_splits)
qed (use assms in \<open>auto split: if_splits\<close>)

lemma frame_max_tick:
  assumes "frame inp st = Some st'" and "1 \<le> max_tick st"
  shows "1 \<le> max_tick st'"
proof -
  obtain evs mx my where inp: "inp = (evs, mx, my)" by (cases inp)
  from assms(1) obtain s1 s2 s3 where
    e: "for_each handle_event evs st = Some s1" and d: "draw_cells mx my s1 = Some s2"
    and u: "update_simulation s2 = Some s3" and f: "end_frame s3 = Some st'"
    by (auto simp: inp bind_eq_Some_conv)
  have "1 \<le> max_tick s1"
    by (rule for_each_invariant[where P = "\<lambda>s. 1 \<le> max_tick s", OF e assms(2)])
      (rule handle_event_max_tick)
  then have "1 \<le> max_tick s2" using d
    by (auto simp: draw_cells_def mouse_cell_def Let_def split: if_splits)
  then have "1 \<le> max_tick s3" using u
    by (auto simp: update_simulation_def bind_eq_Some_conv split: if_splits)
  then show ?thesis using f by (auto simp: end_frame_def bind_eq_Some_conv)
qed

lemma main_loop_max_tick:
  "main_loop inps st = Some st' \<Longrightarrow> 1 \<le> max_tick st \<Longrightarrow> 1 \<le> max_tick st'"
proof (induction inps arbitrary: st)
  case Nil
  then show ?case by simp
next
  case (Cons inp inps)
  show ?case
  proof (cases "quit st")
    case True
    then show ?thesis using Cons.prems by simp
  next
    case False
    then obtain s1 where s1: "frame inp st = Some s1" and r: "main_loop inps s1 = Some st'"
      using Cons.prems(1) by (auto split: option.splits)
    show ?thesis by (rule Cons.IH[OF r frame_max_tick[OF s1 Cons.prems(2)]])
  qed
qed

lemma wheel_decrease:
  assumes "0 < wy" and "1 \<le> max_tick s"
  shows "handle_event (SDL_MOUSEWHEEL wy) s = Some (s\<lparr>max_tick := max 1 (max_tick s - 1)\<rparr>)"
  using assms by (auto simp: decr_def INT_MIN_def max_def)

lemma wheel_total:
  assumes "1 \<le> max_tick st" and "max_tick st + int (length ws) \<le> INT_MAX"
  shows "\<exists>st'. for_each (\<lambda>wy. handle_event (SDL_MOUSEWHEEL wy)) ws st = Some st' \<and>
    1 \<le> max_tick st' \<and> max_tick st' \<le> max_tick st + int (length ws)"
  using assms
proof (induction ws arbitrary: st)
  case Nil
  then show ?case by simp
next
  case (Cons wy ws)
  have "\<exists>s1. handle_event (SDL_MOUSEWHEEL wy) st = Some s1 \<and> 1 \<le> max_tick s1 \<and>
      max_tick s1 \<le> max_tick st + 1"
    using Cons.prems by (auto simp: incr_def decr_def INT_MIN_def)
  then obtain s1 where s1: "handle_event (SDL_MOUSEWHEEL wy) st = Some s1"
    and b: "1 \<le> max_tick s1" "max_tick s1 \<le> max_tick st + 1" by blast
  have "max_tick s1 + int (length ws) \<le> INT_MAX" using b Cons.prems by simp
  from Cons.IH[OF b(1) this] obtain st' where
    "for_each (\<lambda>wy. handle_event (SDL_MOUSEWHEEL wy)) ws s1 = Some st'"
    "1 \<le> max_tick st'" "max_tick st' \<le> max_tick s1 + int (length ws)" by blast
  then show ?case using s1 b by (auto simp del: handle_event.simps)
qed

lemma wheel_down_fixed:
  assumes "max_tick st = 1"
  shows "for_each (\<lambda>wy. handle_event (SDL_MOUSEWHEEL wy)) (replicate n 1) st = Some st"
proof -
  have "st\<lparr>max_tick := 1\<rparr> = st" using assms by (cases st) simp
  then have step: "handle_event (SDL_MOUSEWHEEL 1) st = Some st"
    using assms by (simp add: decr_def INT_MIN_def)
  show ?thesis by (induction n) (simp_all add: step del: handle_event.simps)
qed

text \<open>
  C8. From a state whose threshold \<open>max_tick\<close> is 1, as it is initially, every run of
  the main loop, and so every sequence of wheel events, ends with \<open>max_tick\<close> at
  least 1 whenever it is defined; a sequence of wheel events is defined as long as the
  increments stay below \<open>INT_MAX\<close>. Any number of decreases leaves the state as it is,
  and a decrease step turns a threshold \<open>m\<close> of at least 1 into \<open>max 1 (m - 1)\<close>.
\<close>

theorem speed_floor:
  assumes "max_tick st = 1"
  shows "(\<forall>inps st'. main_loop inps st = Some st' \<longrightarrow> 1 \<le> max_tick st') \<and>
    (\<forall>ws st'. for_each (\<lambda>wy. handle_event (SDL_MOUSEWHEEL wy)) ws st = Some st'
        \<longrightarrow> 1 \<le> max_tick st') \<and>
    (\<forall>ws. int (length ws) < INT_MAX \<longrightarrow>
        (\<exists>st'. for_each (\<lambda>wy. handle_event (SDL_MOUSEWHEEL wy)) ws st = Some st')) \<and>
    (\<forall>n. for_each (\<lambda>wy. handle_event (SDL_MOUSEWHEEL wy)) (replicate n 1) st = Some st) \<and>
    (\<forall>s wy. 0 < wy \<longrightarrow> 1 \<le> max_tick s \<longrightarrow>
        handle_event (SDL_MOUSEWHEEL wy) s = Some (s\<lparr>max_tick := max 1 (max_tick s - 1)\<rparr>))"
proof (intro conjI allI impI)
  fix inps st' assume "main_loop inps st = Some st'"
  then show "1 \<le> max_tick st'" using main_loop_max_tick assms by simp
next
  fix ws st' assume r: "for_each (\<lambda>wy. handle_event (SDL_MOUSEWHEEL wy)) ws st = Some st'"
  have "1 \<le> max_tick st" using assms by simp
  show "1 \<le> max_tick st'"
    by (rule for_each_invariant[where P = "\<lambda>s. 1 \<le> max_tick s", OF r \<open>1 \<le> max_tick st\<close>])
      (rule handle_event_max_tick)
next
  fix ws :: "int list" assume "int (length ws) < INT_MAX"
  then show "\<exists>st'. for_each (\<lambda>wy. handle_event (SDL_MOUSEWHEEL wy)) ws st = Some st'"
    using wheel_total[of st ws] assms by auto
next
  fix n show "for_each (\<lambda>wy. handle_event (SDL_MOUSEWHEEL wy)) (replicate n 1) st = Some st"
    by (rule wheel_down_fixed[OF assms])
next
  fix s :: state and wy :: int assume "0 < wy" "1 \<le> max_tick s"
  then show "handle_event (SDL_MOUSEWHEEL wy) s = Some (s\<lparr>max_tick := max 1 (max_tick s - 1)\<rparr>)"
    by (rule wheel_decrease)
qed

theorem speed_floor_witness:
  "\<exists>st'. for_each (\<lambda>wy. handle_event (SDL_MOUSEWHEEL wy)) [-1, -1, 1, 1, 1, 1] (init Map.empty (\<lambda>p. None))
      = Some st' \<and> 1 \<le> max_tick st'"
proof -
  have m: "max_tick (init Map.empty (\<lambda>p. None)) = 1" by (simp add: init_def)
  have l: "int (length [-1, -1, 1, 1, 1, 1::int]) < INT_MAX" by (simp add: INT_MAX_def)
  from speed_floor[OF m] l show ?thesis by blast
qed

section \<open>While the simulation runs\<close>

lemma handle_event_running:
  assumes "s_started st" and "\<forall>b p. e \<noteq> SDL_KEYUP SDLK_F1 b p"
    and "handle_event e st = Some st'"
  shows "s_started st' \<and> cells st' = cells st \<and> previous_simul st' = previous_simul st \<and>
    tick st' = tick st"
proof (cases e)
  case (SDL_MOUSEWHEEL wy)
  then show ?thesis using assms by (auto simp: bind_eq_Some_conv split: if_splits)
qed (use assms in \<open>auto split: if_splits\<close>)

lemma handle_event_running_cells:
  assumes "s_started st" and "handle_event e st = Some st'"
  shows "cells st' = cells st"
proof (cases e)
  case (SDL_MOUSEWHEEL wy)
  then show ?thesis using assms by (auto simp: bind_eq_Some_conv split: if_splits)
qed (use assms in \<open>auto split: if_splits\<close>)

lemma events_running:
  assumes run: "s_started st" and nof1: "\<forall>b p. SDL_KEYUP SDLK_F1 b p \<notin> set evs"
    and ev: "for_each handle_event evs st = Some st'"
  shows "s_started st' \<and> cells st' = cells st \<and> previous_simul st' = previous_simul st \<and>
    tick st' = tick st"
proof (rule for_each_invariant[where P = "\<lambda>s. s_started s \<and> cells s = cells st \<and>
    previous_simul s = previous_simul st \<and> tick s = tick st", OF ev])
  show "s_started st \<and> cells st = cells st \<and> previous_simul st = previous_simul st \<and>
    tick st = tick st" using run by simp
next
  fix e s s'
  assume e: "e \<in> set evs"
    and s: "s_started s \<and> cells s = cells st \<and> previous_simul s = previous_simul st \<and>
      tick s = tick st"
    and h: "handle_event e s = Some s'"
  have "\<forall>b p. e \<noteq> SDL_KEYUP SDLK_F1 b p" using nof1 e by auto
  from handle_event_running[OF _ this h] s
  show "s_started s' \<and> cells s' = cells st \<and> previous_simul s' = previous_simul st \<and>
    tick s' = tick st" by simp
qed

lemma frame_running:
  assumes run: "s_started st" and nof1: "\<forall>b p. SDL_KEYUP SDLK_F1 b p \<notin> set evs"
    and fr: "frame (evs, mx, my) st = Some st'"
  shows "s_started st' \<and> previous_simul st' = previous_simul st \<and>
    (cells st' = cells st \<or> generation (cells st) = Some (cells st'))"
proof -
  from fr obtain s1 s2 s3 where
    e: "for_each handle_event evs st = Some s1" and d: "draw_cells mx my s1 = Some s2"
    and u: "update_simulation s2 = Some s3" and f: "end_frame s3 = Some st'"
    by (auto simp: bind_eq_Some_conv)
  note s1 = events_running[OF run nof1 e]
  have s2: "s2 = s1" using d s1 by (simp add: draw_cells_def)
  have "s_started s3 \<and> previous_simul s3 = previous_simul st \<and>
    (cells s3 = cells st \<or> generation (cells st) = Some (cells s3))"
    using u s1 s2 by (auto simp: update_simulation_def bind_eq_Some_conv split: if_splits)
  then show ?thesis using f by (auto simp: end_frame_def bind_eq_Some_conv)
qed

lemma main_loop_running:
  assumes "s_started st"
    and "\<forall>inp \<in> set inps. \<forall>b p. SDL_KEYUP SDLK_F1 b p \<notin> set (fst inp)"
    and "main_loop inps st = Some st'"
  shows "s_started st' \<and> previous_simul st' = previous_simul st"
  using assms
proof (induction inps arbitrary: st)
  case Nil
  then show ?case by simp
next
  case (Cons inp inps)
  show ?case
  proof (cases "quit st")
    case True
    then show ?thesis using Cons.prems by simp
  next
    case False
    then obtain s1 where s1: "frame inp st = Some s1" and r: "main_loop inps s1 = Some st'"
      using Cons.prems(3) by (auto split: option.splits)
    obtain evs mx my where inp: "inp = (evs, mx, my)" by (cases inp)
    have "\<forall>b p. SDL_KEYUP SDLK_F1 b p \<notin> set evs" using Cons.prems(2) inp by simp
    from frame_running[OF Cons.prems(1) this] s1 inp
    have k: "s_started s1" "previous_simul s1 = previous_simul st" by simp_all
    have "\<forall>inp \<in> set inps. \<forall>b p. SDL_KEYUP SDLK_F1 b p \<notin> set (fst inp)"
      using Cons.prems(2) by simp
    from Cons.IH[OF k(1) this r] k(2) show ?thesis by simp
  qed
qed

text \<open>
  C7. While \<open>s_started\<close> is set, the paint and erase code of lines 286 to 307 leaves
  the state as it is, whatever the mouse buttons and position; the F2 key leaves the state
  as it is; no event at all changes \<open>cells\<close>; and a whole frame without the F1 key
  either leaves \<open>cells\<close> as it is or replaces it by its next generation.
\<close>

theorem edits_rejected_while_running:
  assumes "s_started st"
  shows "draw_cells mx my st = Some st \<and>
    handle_event (SDL_KEYUP SDLK_F2 box path) st = Some st \<and>
    (\<forall>e st'. handle_event e st = Some st' \<longrightarrow> cells st' = cells st) \<and>
    (\<forall>evs st'. (\<forall>b p. SDL_KEYUP SDLK_F1 b p \<notin> set evs) \<longrightarrow>
       frame (evs, mx, my) st = Some st' \<longrightarrow>
       cells st' = cells st \<or> generation (cells st) = Some (cells st'))"
proof (intro conjI allI impI)
  show "draw_cells mx my st = Some st" using assms by (simp add: draw_cells_def)
  show "handle_event (SDL_KEYUP SDLK_F2 box path) st = Some st" using assms by simp
next
  fix e st' assume "handle_event e st = Some st'"
  then show "cells st' = cells st" by (rule handle_event_running_cells[OF assms])
next
  fix evs st'
  assume "\<forall>b p. SDL_KEYUP SDLK_F1 b p \<notin> set evs" "frame (evs, mx, my) st = Some st'"
  then show "cells st' = cells st \<or> generation (cells st) = Some (cells st')"
    using frame_running[OF assms] by blast
qed

theorem edits_rejected_while_running_witness:
  "draw_cells 10 10 ((init Map.empty (\<lambda>p. None))\<lparr>s_started := True, add_btn_down := True\<rparr>) =
     Some ((init Map.empty (\<lambda>p. None))\<lparr>s_started := True, add_btn_down := True\<rparr>) \<and>
   handle_event (SDL_KEYUP SDLK_F2 None None)
       ((init Map.empty (\<lambda>p. None))\<lparr>s_started := True, add_btn_down := True\<rparr>) =
     Some ((init Map.empty (\<lambda>p. None))\<lparr>s_started := True, add_btn_down := True\<rparr>)"
  using edits_rejected_while_running
    [of "(init Map.empty (\<lambda>p. None))\<lparr>s_started := True, add_btn_down := True\<rparr>" 10 10 None None]
  by simp

section \<open>The tick counter\<close>

lemma generation_total:
  assumes "length cs = GRID_WIDTH * GRID_HEIGHT"
  shows "\<exists>g. generation cs = Some g \<and> length g = GRID_WIDTH * GRID_HEIGHT"
  by (simp add: generation_closed[OF assms])

lemma events_tick:
  assumes "for_each handle_event evs st = Some st'"
  shows "tick st' = tick st"
proof (rule for_each_invariant[where P = "\<lambda>s. tick s = tick st", OF assms])
  fix e s s' assume "tick s = tick st" "handle_event e s = Some s'"
  then show "tick s' = tick st"
    by (cases e)
      (auto simp: Let_def save_state_def load_state_def bind_eq_Some_conv
        split: if_splits option.splits)
qed simp

text \<open>
  C5. Take a frame in which the simulation is running once the events are handled, with
  a grid of \<open>GRID_WIDTH * GRID_HEIGHT\<close> bytes. The events leave \<open>tick\<close> alone. If
  \<open>tick\<close> exceeds \<open>max_tick\<close>, the frame advances the grid by one generation, the
  update sets \<open>tick\<close> to 0, and the increment at the end of the frame leaves it at 1.
  Otherwise the update does nothing, the grid stays, and \<open>tick\<close> grows by one.
\<close>

theorem tick_scheduler:
  assumes ev: "for_each handle_event evs st = Some st1"
    and run: "s_started st1"
    and len: "length (cells st1) = GRID_WIDTH * GRID_HEIGHT"
    and t: "tick st1 < INT_MAX \<or> max_tick st1 < tick st1"
  shows "\<exists>st'. frame (evs, mx, my) st = Some st' \<and> tick st1 = tick st \<and>
    (if max_tick st1 < tick st1
     then generation (cells st1) = Some (cells st') \<and>
          (\<exists>st3. update_simulation st1 = Some st3 \<and> tick st3 = 0) \<and> tick st' = 1
     else cells st' = cells st1 \<and> update_simulation st1 = Some st1 \<and>
          tick st' = tick st1 + 1)"
proof -
  have d: "draw_cells mx my st1 = Some st1" using run by (simp add: draw_cells_def)
  have tk: "tick st1 = tick st" by (rule events_tick[OF ev])
  show ?thesis
  proof (cases "max_tick st1 < tick st1")
    case True
    from generation_total[OF len] obtain g where g: "generation (cells st1) = Some g" by blast
    have u: "update_simulation st1 = Some (st1\<lparr>cells := g, tick := 0\<rparr>)"
      using run True g by (simp add: update_simulation_def)
    have "frame (evs, mx, my) st = Some (st1\<lparr>cells := g, tick := 1\<rparr>)"
      using ev d u by (simp add: end_frame_def incr_def INT_MAX_def)
    then show ?thesis using True g u tk by simp
  next
    case False
    have u: "update_simulation st1 = Some st1"
      using run False by (simp add: update_simulation_def)
    have "frame (evs, mx, my) st = Some (st1\<lparr>tick := tick st1 + 1\<rparr>)"
      using ev d u t False by (simp add: end_frame_def incr_def)
    then show ?thesis using False u tk by simp
  qed
qed

theorem tick_scheduler_witness:
  "\<exists>st'. frame ([], 0, 0) ((init Map.empty (\<lambda>p. None))\<lparr>s_started := True, tick := 2\<rparr>) = Some st' \<and>
     generation (cells ((init Map.empty (\<lambda>p. None))\<lparr>s_started := True, tick := 2\<rparr>)) = Some (cells st') \<and>
     tick st' = 1"
proof -
  let ?st = "(init Map.empty (\<lambda>p. None))\<lparr>s_started := True, tick := 2\<rparr>"
  have ev: "for_each handle_event [] ?st = Some ?st" by simp
  have run: "s_started ?st" by simp
  have len: "length (cells ?st) = GRID_WIDTH * GRID_HEIGHT" by (simp add: init_def)
  have t: "tick ?st < INT_MAX \<or> max_tick ?st < tick ?st" by (simp add: init_def)
  have m: "max_tick ?st < tick ?st" by (simp add: init_def)
  from tick_scheduler[OF ev run len t, of 0 0] m show ?thesis by auto
qed

section \<open>Saving and loading\<close>

lemma grid_size: "GRID_WIDTH * GRID_HEIGHT = 36864"
  by (simp add: GRID_WIDTH_def GRID_HEIGHT_def)

lemma fread_all:
  assumes "length cs = GRID_WIDTH * GRID_HEIGHT" and "length file = GRID_WIDTH * GRID_HEIGHT"
  shows "fread cs 4 (GRID_WIDTH * GRID_HEIGHT div 4) file = Some file"
  using assms by (simp add: fread_def grid_size)

text \<open>
  C4. Take a paused state with arrays of \<open>GRID_WIDTH * GRID_HEIGHT\<close> bytes and save to
  the path \<open>p\<close>. When \<open>fopen\<close> fails the program is undefined. When the file opens,
  the file holds the first bytes of the chosen array (\<open>cells\<close> for the button 1,
  \<open>previous_simul\<close> otherwise), as many as the device accepts. When it accepts them all,
  the file is that array byte for byte, 36864 bytes long; and loading a file with these
  bytes in any paused state, by \<open>fread\<close> in 9216 units of four bytes, makes \<open>cells\<close>
  equal to the saved bytes.
\<close>

theorem save_load_roundtrip:
  assumes "\<not> s_started st" and "length (cells st) = GRID_WIDTH * GRID_HEIGHT"
    and "length (previous_simul st) = GRID_WIDTH * GRID_HEIGHT"
  shows "(writable st p = None \<longrightarrow>
      handle_event (SDL_KEYUP SDLK_F3 (Some btn) (Some p)) st = None) \<and>
    (\<forall>room. writable st p = Some room \<longrightarrow>
      handle_event (SDL_KEYUP SDLK_F3 (Some btn) (Some p)) st =
        Some (st\<lparr>files := (files st)
          (p \<mapsto> take room (if btn = 1 then cells st else previous_simul st))\<rparr>)) \<and>
    (\<forall>room. writable st p = Some room \<longrightarrow> GRID_WIDTH * GRID_HEIGHT \<le> room \<longrightarrow>
      (\<exists>bytes.
        handle_event (SDL_KEYUP SDLK_F3 (Some btn) (Some p)) st =
          Some (st\<lparr>files := (files st)(p \<mapsto> bytes)\<rparr>) \<and>
        bytes = (if btn = 1 then cells st else previous_simul st) \<and>
        length bytes = 36864 \<and>
        (\<forall>st2 box. \<not> s_started st2 \<longrightarrow> length (cells st2) = GRID_WIDTH * GRID_HEIGHT \<longrightarrow>
           files st2 p = Some bytes \<longrightarrow>
           handle_event (SDL_KEYUP SDLK_F4 box (Some p)) st2 = Some (st2\<lparr>cells := bytes\<rparr>))))"
proof (intro conjI allI impI)
  let ?bytes = "if btn = 1 then cells st else previous_simul st"
  have l: "length ?bytes = GRID_WIDTH * GRID_HEIGHT" using assms by simp
  {
    assume "writable st p = None"
    then show "handle_event (SDL_KEYUP SDLK_F3 (Some btn) (Some p)) st = None"
      using assms by (simp add: save_state_def)
  }
  {
    fix room assume "writable st p = Some room"
    then show "handle_event (SDL_KEYUP SDLK_F3 (Some btn) (Some p)) st =
        Some (st\<lparr>files := (files st)(p \<mapsto> take room ?bytes)\<rparr>)"
      using assms by (simp add: save_state_def fwrite_def min_def)
  }
  {
    fix room assume w: "writable st p = Some room" and r: "GRID_WIDTH * GRID_HEIGHT \<le> room"
    have s: "handle_event (SDL_KEYUP SDLK_F3 (Some btn) (Some p)) st =
        Some (st\<lparr>files := (files st)(p \<mapsto> ?bytes)\<rparr>)"
      using assms w r by (simp add: save_state_def fwrite_def)
    have "handle_event (SDL_KEYUP SDLK_F4 box (Some p)) st2 = Some (st2\<lparr>cells := ?bytes\<rparr>)"
      if "\<not> s_started st2" "length (cells st2) = GRID_WIDTH * GRID_HEIGHT"
        "files st2 p = Some ?bytes" for st2 box
      using that fread_all[OF that(2) l] by (simp add: load_state_def)
    then show "\<exists>bytes.
        handle_event (SDL_KEYUP SDLK_F3 (Some btn) (Some p)) st =
          Some (st\<lparr>files := (files st)(p \<mapsto> bytes)\<rparr>) \<and>
        bytes = ?bytes \<and> length bytes = 36864 \<and>
        (\<forall>st2 box. \<not> s_started st2 \<longrightarrow> length (cells st2) = GRID_WIDTH * GRID_HEIGHT \<longrightarrow>
           files st2 p = Some bytes \<longrightarrow>
           handle_event (SDL_KEYUP SDLK_F4 box (Some p)) st2 = Some (st2\<lparr>cells := bytes\<rparr>))"
      using s l by (simp add: grid_size)
  }
qed

theorem save_load_roundtrip_witness:
  "handle_event (SDL_KEYUP SDLK_F3 (Some 1) (Some ''a.gol''))
      ((init Map.empty (\<lambda>p. Some 36864))\<lparr>cells := blinker_h 5 7\<rparr>) =
     Some ((init Map.empty (\<lambda>p. Some 36864))
       \<lparr>cells := blinker_h 5 7, files := [''a.gol'' \<mapsto> blinker_h 5 7]\<rparr>) \<and>
   handle_event (SDL_KEYUP SDLK_F4 None (Some ''a.gol''))
      (init [''a.gol'' \<mapsto> blinker_h 5 7] (\<lambda>p. None)) =
     Some ((init [''a.gol'' \<mapsto> blinker_h 5 7] (\<lambda>p. None))\<lparr>cells := blinker_h 5 7\<rparr>) \<and>
   handle_event (SDL_KEYUP SDLK_F3 (Some 1) (Some ''/nodir/a.gol''))
      ((init Map.empty (\<lambda>p. None))\<lparr>cells := blinker_h 5 7\<rparr>) = None"
proof -
  let ?st = "(init Map.empty (\<lambda>p. Some 36864))\<lparr>cells := blinker_h 5 7\<rparr>"
  let ?st2 = "init [''a.gol'' \<mapsto> blinker_h 5 7] (\<lambda>p. None)"
  let ?st3 = "(init Map.empty (\<lambda>p. None))\<lparr>cells := blinker_h 5 7\<rparr>"
  have a: "\<not> s_started ?st" "length (cells ?st) = GRID_WIDTH * GRID_HEIGHT"
    "length (previous_simul ?st) = GRID_WIDTH * GRID_HEIGHT"
    by (simp_all add: init_def blinker_h_def length_grid_of)
  have w: "writable ?st ''a.gol'' = Some 36864" "GRID_WIDTH * GRID_HEIGHT \<le> 36864"
    by (simp_all add: init_def grid_size)
  have b: "\<not> s_started ?st2" "length (cells ?st2) = GRID_WIDTH * GRID_HEIGHT"
    "files ?st2 ''a.gol'' = Some (blinker_h 5 7)"
    by (simp_all add: init_def)
  have c: "\<not> s_started ?st3" "length (cells ?st3) = GRID_WIDTH * GRID_HEIGHT"
    "length (previous_simul ?st3) = GRID_WIDTH * GRID_HEIGHT"
    "writable ?st3 ''/nodir/a.gol'' = None"
    by (simp_all add: init_def blinker_h_def length_grid_of)
  from save_load_roundtrip[OF a, of "''a.gol''" 1, THEN conjunct2, THEN conjunct2, THEN spec,
      THEN mp, THEN mp, OF w]
  obtain bytes where
    s: "handle_event (SDL_KEYUP SDLK_F3 (Some 1) (Some ''a.gol'')) ?st =
      Some (?st\<lparr>files := (files ?st)(''a.gol'' \<mapsto> bytes)\<rparr>)"
    and e: "bytes = cells ?st"
    and ld: "\<forall>st2 box. \<not> s_started st2 \<longrightarrow> length (cells st2) = GRID_WIDTH * GRID_HEIGHT \<longrightarrow>
           files st2 ''a.gol'' = Some bytes \<longrightarrow>
           handle_event (SDL_KEYUP SDLK_F4 box (Some ''a.gol'')) st2 = Some (st2\<lparr>cells := bytes\<rparr>)"
    by auto
  have e': "bytes = blinker_h 5 7" using e by simp
  have 1: "handle_event (SDL_KEYUP SDLK_F3 (Some 1) (Some ''a.gol'')) ?st =
     Some ((init Map.empty (\<lambda>p. Some 36864))
       \<lparr>cells := blinker_h 5 7, files := [''a.gol'' \<mapsto> blinker_h 5 7]\<rparr>)"
    using s unfolding e' by (simp add: init_def)
  have 2: "handle_event (SDL_KEYUP SDLK_F4 None (Some ''a.gol'')) ?st2 =
      Some (?st2\<lparr>cells := blinker_h 5 7\<rparr>)"
    using ld[THEN spec, THEN spec, THEN mp, THEN mp, THEN mp, OF b(1) b(2), of None] b(3)
    unfolding e' by simp
  have 3: "handle_event (SDL_KEYUP SDLK_F3 (Some 1) (Some ''/nodir/a.gol'')) ?st3 = None"
    using save_load_roundtrip[OF c(1-3), of "''/nodir/a.gol''" 1, THEN conjunct1] c(4) by blast
  from 1 2 3 show ?thesis by (intro conjI)
qed

section \<open>Every cell byte is 0 or 1\<close>

lemma clear_prefix:
  "n \<le> length c \<Longrightarrow>
   for_each (\<lambda>i c. cell_set c i 0) [0..<n] c = Some (replicate n 0 @ drop n c)"
proof (induction n)
  case 0
  then show ?case by simp
next
  case (Suc n)
  then have n: "n < length c" by simp
  have "(replicate n 0 @ drop n c)[n := 0] = replicate (Suc n) 0 @ drop (Suc n) c"
    using n by (simp add: list_update_append replicate_append_same flip: Cons_nth_drop_Suc)
  then show ?case using Suc n by (simp add: for_each_append cell_set_def)
qed

lemma clear_cells_closed:
  assumes "length c = GRID_WIDTH * GRID_HEIGHT"
  shows "clear_cells c = Some (replicate (GRID_WIDTH * GRID_HEIGHT) 0)"
  using clear_prefix[of "GRID_WIDTH * GRID_HEIGHT" c] assms by (simp add: clear_cells_def)

lemma spec_generation_bytes: "\<forall>c \<in> set (spec_generation cs). c = 0 \<or> c = 1"
  by (auto simp: spec_generation_def spec_next_def Let_def)

lemma handle_event_bytes:
  assumes inv: "length (cells st) = GRID_WIDTH * GRID_HEIGHT \<and> (\<forall>c \<in> set (cells st). c = 0 \<or> c = 1)"
    and nl: "\<forall>b p. e \<noteq> SDL_KEYUP SDLK_F4 b (Some p)"
    and h: "handle_event e st = Some st'"
  shows "length (cells st') = GRID_WIDTH * GRID_HEIGHT \<and> (\<forall>c \<in> set (cells st'). c = 0 \<or> c = 1)"
proof (cases e)
  case (SDL_KEYUP k box path)
  show ?thesis
  proof (cases "k = SDLK_F2 \<and> \<not> s_started st")
    case True
    then have "st' = st\<lparr>cells := replicate (GRID_WIDTH * GRID_HEIGHT) 0\<rparr>"
      using h inv SDL_KEYUP by (simp add: clear_cells_closed)
    then show ?thesis by simp
  next
    case False
    then have "cells st' = cells st"
      using h nl SDL_KEYUP
      by (cases path; cases box)
        (auto simp: Let_def save_state_def bind_eq_Some_conv split: if_splits option.splits)
    then show ?thesis using inv by simp
  qed
next
  case (SDL_MOUSEWHEEL wy)
  then have "cells st' = cells st" using h by (auto simp: bind_eq_Some_conv split: if_splits)
  then show ?thesis using inv by simp
qed (use inv h in \<open>auto split: if_splits\<close>)

lemma draw_cells_bytes:
  assumes inv: "length (cells st) = GRID_WIDTH * GRID_HEIGHT \<and> (\<forall>c \<in> set (cells st). c = 0 \<or> c = 1)"
    and d: "draw_cells mx my st = Some st'"
  shows "length (cells st') = GRID_WIDTH * GRID_HEIGHT \<and> (\<forall>c \<in> set (cells st'). c = 0 \<or> c = 1)"
proof -
  have "st' = st \<or> (\<exists>k. cells st' = (cells st)[k := 1]) \<or> (\<exists>k. cells st' = (cells st)[k := 0])"
    using d by (auto simp: draw_cells_def mouse_cell_def Let_def CELL_ALIVE_def split: if_splits)
  then show ?thesis using inv set_update_subset_insert[of "cells st"] by fastforce
qed

lemma update_simulation_bytes:
  assumes inv: "length (cells st) = GRID_WIDTH * GRID_HEIGHT \<and> (\<forall>c \<in> set (cells st). c = 0 \<or> c = 1)"
    and u: "update_simulation st = Some st'"
  shows "length (cells st') = GRID_WIDTH * GRID_HEIGHT \<and> (\<forall>c \<in> set (cells st'). c = 0 \<or> c = 1)"
proof -
  have g: "generation (cells st) = Some (spec_generation (cells st))"
    using inv by (simp add: generation_spec)
  have "st' = st \<or> cells st' = spec_generation (cells st)"
    using u g by (auto simp: update_simulation_def split: if_splits)
  then show ?thesis using inv spec_generation_bytes[of "cells st"]
    by (auto simp: spec_generation_def)
qed

lemma frame_bytes:
  assumes inv: "length (cells st) = GRID_WIDTH * GRID_HEIGHT \<and> (\<forall>c \<in> set (cells st). c = 0 \<or> c = 1)"
    and nl: "\<forall>b p. SDL_KEYUP SDLK_F4 b (Some p) \<notin> set (fst inp)"
    and fr: "frame inp st = Some st'"
  shows "length (cells st') = GRID_WIDTH * GRID_HEIGHT \<and> (\<forall>c \<in> set (cells st'). c = 0 \<or> c = 1)"
proof -
  obtain evs mx my where inp: "inp = (evs, mx, my)" by (cases inp)
  from fr obtain s1 s2 s3 where
    e: "for_each handle_event evs st = Some s1" and d: "draw_cells mx my s1 = Some s2"
    and u: "update_simulation s2 = Some s3" and f: "end_frame s3 = Some st'"
    by (auto simp: inp bind_eq_Some_conv)
  have "length (cells s1) = GRID_WIDTH * GRID_HEIGHT \<and> (\<forall>c \<in> set (cells s1). c = 0 \<or> c = 1)"
  proof (rule for_each_invariant[where P = "\<lambda>s. length (cells s) = GRID_WIDTH * GRID_HEIGHT \<and>
      (\<forall>c \<in> set (cells s). c = 0 \<or> c = 1)", OF e inv])
    fix ev s s'
    assume "ev \<in> set evs"
      and "length (cells s) = GRID_WIDTH * GRID_HEIGHT \<and> (\<forall>c \<in> set (cells s). c = 0 \<or> c = 1)"
      and "handle_event ev s = Some s'"
    moreover have "\<forall>b p. ev \<noteq> SDL_KEYUP SDLK_F4 b (Some p)"
      using nl inp \<open>ev \<in> set evs\<close> by auto
    ultimately show "length (cells s') = GRID_WIDTH * GRID_HEIGHT \<and>
        (\<forall>c \<in> set (cells s'). c = 0 \<or> c = 1)"
      using handle_event_bytes by blast
  qed
  from update_simulation_bytes[OF draw_cells_bytes[OF this d] u] f
  show ?thesis by (auto simp: end_frame_def bind_eq_Some_conv)
qed

lemma main_loop_bytes:
  assumes "length (cells st) = GRID_WIDTH * GRID_HEIGHT \<and> (\<forall>c \<in> set (cells st). c = 0 \<or> c = 1)"
    and "\<forall>inp \<in> set inps. \<forall>b p. SDL_KEYUP SDLK_F4 b (Some p) \<notin> set (fst inp)"
    and "main_loop inps st = Some st'"
  shows "length (cells st') = GRID_WIDTH * GRID_HEIGHT \<and> (\<forall>c \<in> set (cells st'). c = 0 \<or> c = 1)"
  using assms
proof (induction inps arbitrary: st)
  case Nil
  then show ?case by simp
next
  case (Cons inp inps)
  show ?case
  proof (cases "quit st")
    case True
    then show ?thesis using Cons.prems by simp
  next
    case False
    then obtain s1 where s1: "frame inp st = Some s1" and r: "main_loop inps s1 = Some st'"
      using Cons.prems(3) by (auto split: option.splits)
    have a: "\<forall>b p. SDL_KEYUP SDLK_F4 b (Some p) \<notin> set (fst inp)" using Cons.prems(2) by simp
    have b: "\<forall>inp \<in> set inps. \<forall>b p. SDL_KEYUP SDLK_F4 b (Some p) \<notin> set (fst inp)"
      using Cons.prems(2) by simp
    show ?thesis by (rule Cons.IH[OF frame_bytes[OF Cons.prems(1) a s1] b r])
  qed
qed

lemma commit_flag_byte:
  assumes "c = 0 \<or> c = 1"
    and "f = 0 \<or> f = CELL_REVIVE \<and> \<not> bit c 0 \<or> f = CELL_DIE"
  shows "((c OR f) AND CELL_REVIVE \<noteq> 0 \<longrightarrow> commit_val (c OR f) = 1) \<and>
    ((c OR f) AND CELL_DIE \<noteq> 0 \<longrightarrow> commit_val (c OR f) = 0) \<and>
    (commit_val (c OR f) = 0 \<or> commit_val (c OR f) = 1)"
  using assms by (auto simp: commit_val_def CELL_ALIVE_def CELL_REVIVE_def CELL_DIE_def)

lemma intent_forms:
  "intent cs x y = 0 \<or> intent cs x y = CELL_REVIVE \<and> \<not> spec_alive cs (int x) (int y)
    \<or> intent cs x y = CELL_DIE"
  by (simp add: intent_def Let_def)

lemma passes_on_bytes:
  assumes len: "length cs = GRID_WIDTH * GRID_HEIGHT" and bytes: "\<forall>c \<in> set cs. c = 0 \<or> c = 1"
  shows "\<exists>g g'. eval_pass cs = Some g \<and> commit_pass g = Some g' \<and>
    (\<forall>i<GRID_WIDTH * GRID_HEIGHT.
       (g ! i AND CELL_REVIVE \<noteq> 0 \<longrightarrow> g' ! i = 1) \<and>
       (g ! i AND CELL_DIE \<noteq> 0 \<longrightarrow> g' ! i = 0) \<and>
       (g' ! i = 0 \<or> g' ! i = 1))"
proof -
  let ?g = "map (\<lambda>i. cs ! i OR intent cs (i mod GRID_WIDTH) (i div GRID_WIDTH))
    [0..<GRID_WIDTH * GRID_HEIGHT]"
  have e: "eval_pass cs = Some ?g" by (rule eval_pass_closed[OF len])
  have c: "commit_pass ?g = Some (map commit_val ?g)" by (rule commit_pass_closed) simp
  have "(?g ! i AND CELL_REVIVE \<noteq> 0 \<longrightarrow> map commit_val ?g ! i = 1) \<and>
       (?g ! i AND CELL_DIE \<noteq> 0 \<longrightarrow> map commit_val ?g ! i = 0) \<and>
       (map commit_val ?g ! i = 0 \<or> map commit_val ?g ! i = 1)"
    if i: "i < GRID_WIDTH * GRID_HEIGHT" for i
  proof -
    let ?x = "i mod GRID_WIDTH" and ?y = "i div GRID_WIDTH"
    have xy: "?x < GRID_WIDTH" "?y < GRID_HEIGHT"
      using coords_in_grid[OF i] by (simp_all add: set_row_major)
    have b: "cs ! i = 0 \<or> cs ! i = 1" using bytes i len by simp
    have a: "spec_alive cs (int ?x) (int ?y) = bit (cs ! i) 0"
      using spec_alive_nat[OF xy, of cs] by simp
    have f: "intent cs ?x ?y = 0 \<or> intent cs ?x ?y = CELL_REVIVE \<and> \<not> bit (cs ! i) 0
      \<or> intent cs ?x ?y = CELL_DIE"
      using intent_forms[of cs ?x ?y] a by simp
    from commit_flag_byte[OF b f] i show ?thesis by simp
  qed
  then show ?thesis using e c by blast
qed

lemma load_other_bytes:
  "handle_event (SDL_KEYUP SDLK_F4 box (Some p)) (init [p \<mapsto> replicate (GRID_WIDTH * GRID_HEIGHT) 2] w) =
    Some ((init [p \<mapsto> replicate (GRID_WIDTH * GRID_HEIGHT) 2] w)
      \<lparr>cells := replicate (GRID_WIDTH * GRID_HEIGHT) 2\<rparr>)"
  by (simp add: init_def load_state_def fread_all)

section \<open>What paint, erase and clear write\<close>

lemma c_div_nonneg: "0 \<le> a \<Longrightarrow> c_div a PIXEL_SIZE = a div PIXEL_SIZE"
  by (cases "a = 0") (simp_all add: c_div_def PIXEL_SIZE_def)

lemma mouse_index:
  assumes "0 \<le> mx" "mx < WINDOW_WIDTH" "0 \<le> my" "my < WINDOW_HEIGHT"
  shows "0 \<le> mx div PIXEL_SIZE + int GRID_WIDTH * (my div PIXEL_SIZE)"
    and "mx div PIXEL_SIZE + int GRID_WIDTH * (my div PIXEL_SIZE) < int (GRID_WIDTH * GRID_HEIGHT)"
    and "nat (mx div PIXEL_SIZE + int GRID_WIDTH * (my div PIXEL_SIZE)) =
      nat (mx div PIXEL_SIZE) + GRID_WIDTH * nat (my div PIXEL_SIZE)"
proof -
  have b: "0 \<le> mx div 5" "mx div 5 < 256" "0 \<le> my div 5" "my div 5 < 144"
    using assms by (simp_all add: WINDOW_WIDTH_def WINDOW_HEIGHT_def)
  show "0 \<le> mx div PIXEL_SIZE + int GRID_WIDTH * (my div PIXEL_SIZE)"
    using b by (simp add: PIXEL_SIZE_def GRID_WIDTH_def)
  show "mx div PIXEL_SIZE + int GRID_WIDTH * (my div PIXEL_SIZE) < int (GRID_WIDTH * GRID_HEIGHT)"
    using b by (simp add: PIXEL_SIZE_def GRID_WIDTH_def GRID_HEIGHT_def)
  show "nat (mx div PIXEL_SIZE + int GRID_WIDTH * (my div PIXEL_SIZE)) =
      nat (mx div PIXEL_SIZE) + GRID_WIDTH * nat (my div PIXEL_SIZE)"
    using b by (simp add: PIXEL_SIZE_def nat_add_distrib nat_mult_distrib)
qed

lemma mouse_cell_window:
  assumes "length (cells st) = GRID_WIDTH * GRID_HEIGHT"
    and w: "0 \<le> mx" "mx < WINDOW_WIDTH" "0 \<le> my" "my < WINDOW_HEIGHT"
  shows "mouse_cell (c_div mx PIXEL_SIZE) (c_div my PIXEL_SIZE) v st =
    Some (st\<lparr>cells := (cells st)
      [nat (mx div PIXEL_SIZE) + GRID_WIDTH * nat (my div PIXEL_SIZE) := v]\<rparr>)"
  using assms(1) mouse_index[OF w]
  by (simp add: mouse_cell_def Let_def c_div_nonneg w)

lemma draw_cells_paint:
  assumes "\<not> s_started st" and "add_btn_down st"
    and "length (cells st) = GRID_WIDTH * GRID_HEIGHT"
    and "0 \<le> mx" "mx < WINDOW_WIDTH" "0 \<le> my" "my < WINDOW_HEIGHT"
  shows "draw_cells mx my st =
    Some (st\<lparr>cells := (cells st)
      [nat (mx div PIXEL_SIZE) + GRID_WIDTH * nat (my div PIXEL_SIZE) := 1]\<rparr>)"
  using assms(1,2) mouse_cell_window[OF assms(3-7), of CELL_ALIVE]
  by (simp add: draw_cells_def Let_def CELL_ALIVE_def)

lemma draw_cells_erase:
  assumes "\<not> s_started st" and "\<not> add_btn_down st" and "rem_btn_down st"
    and "length (cells st) = GRID_WIDTH * GRID_HEIGHT"
    and "0 \<le> mx" "mx < WINDOW_WIDTH" "0 \<le> my" "my < WINDOW_HEIGHT"
  shows "draw_cells mx my st =
    Some (st\<lparr>cells := (cells st)
      [nat (mx div PIXEL_SIZE) + GRID_WIDTH * nat (my div PIXEL_SIZE) := 0]\<rparr>)"
  using assms(1-3) mouse_cell_window[OF assms(4-8), of 0]
  by (simp add: draw_cells_def Let_def)

lemma draw_cells_forms:
  assumes "\<not> s_started st" and "draw_cells mx my st = Some st'"
  shows "(add_btn_down st \<longrightarrow> (\<exists>k<length (cells st). st' = st\<lparr>cells := (cells st)[k := 1]\<rparr>)) \<and>
    (\<not> add_btn_down st \<and> rem_btn_down st \<longrightarrow>
      (\<exists>k<length (cells st). st' = st\<lparr>cells := (cells st)[k := 0]\<rparr>)) \<and>
    (\<not> add_btn_down st \<and> \<not> rem_btn_down st \<longrightarrow> st' = st)"
proof -
  have "\<exists>k<length (cells st). s' = st\<lparr>cells := (cells st)[k := v]\<rparr>"
    if "mouse_cell cx cy v st = Some s'" for cx cy v s'
  proof -
    let ?k = "cx + int GRID_WIDTH * cy"
    from that have "0 \<le> ?k" "?k < int (length (cells st))"
      and "s' = st\<lparr>cells := (cells st)[nat ?k := v]\<rparr>"
      by (auto simp: mouse_cell_def Let_def split: if_splits)
    then show ?thesis by (intro exI[of _ "nat ?k"]) auto
  qed
  then show ?thesis using assms
    by (auto simp: draw_cells_def Let_def CELL_ALIVE_def split: if_splits)
qed

lemma clear_event:
  assumes "\<not> s_started st" and "length (cells st) = GRID_WIDTH * GRID_HEIGHT"
  shows "handle_event (SDL_KEYUP SDLK_F2 box path) st =
    Some (st\<lparr>cells := replicate (GRID_WIDTH * GRID_HEIGHT) 0\<rparr>)"
  using assms by (simp add: clear_cells_closed)

section \<open>The main loop is defined on plain inputs\<close>

lemma handle_event_defined:
  assumes "sized s" and "plain_event e" and "opens_file (writable s) e"
  shows "\<exists>s'. handle_event e s = Some s' \<and> sized s' \<and> tick s' = tick s \<and>
    writable s' = writable s"
proof (cases e)
  case (SDL_KEYUP k box path)
  then show ?thesis using assms
    by (cases box; cases path)
      (auto simp: sized_def Let_def clear_cells_closed save_state_def fwrite_def)
next
  case (SDL_MOUSEWHEEL wy)
  then show ?thesis using assms by (auto simp: sized_def decr_def INT_MIN_def)
qed (use assms in \<open>auto simp: sized_def\<close>)

lemma events_defined:
  assumes "sized s" and "list_all plain_event evs" and "list_all (opens_file (writable s)) evs"
  shows "\<exists>s'. for_each handle_event evs s = Some s' \<and> sized s' \<and> tick s' = tick s \<and>
    writable s' = writable s"
  using assms
proof (induction evs arbitrary: s)
  case Nil
  then show ?case by simp
next
  case (Cons e evs)
  from handle_event_defined[of s e] Cons.prems obtain s1 where
    s1: "handle_event e s = Some s1" "sized s1" "tick s1 = tick s" "writable s1 = writable s"
    by auto
  from Cons.IH[OF s1(2)] Cons.prems s1(4) obtain s' where
    "for_each handle_event evs s1 = Some s'" "sized s'" "tick s' = tick s1"
    "writable s' = writable s1" by auto
  then show ?case using s1 by (auto simp del: handle_event.simps)
qed

lemma c_div_window:
  assumes "0 \<le> mx" "mx < WINDOW_WIDTH" "0 \<le> my" "my < WINDOW_HEIGHT"
  shows "0 \<le> c_div mx PIXEL_SIZE + int GRID_WIDTH * c_div my PIXEL_SIZE \<and>
    c_div mx PIXEL_SIZE + int GRID_WIDTH * c_div my PIXEL_SIZE < int (GRID_WIDTH * GRID_HEIGHT)"
  using mouse_index(1,2)[OF assms] by (simp add: c_div_nonneg assms)

lemma draw_cells_defined:
  assumes "sized s" and "0 \<le> mx" "mx < WINDOW_WIDTH" "0 \<le> my" "my < WINDOW_HEIGHT"
  shows "\<exists>s'. draw_cells mx my s = Some s' \<and> sized s' \<and> tick s' = tick s \<and>
    writable s' = writable s \<and> s_started s' = s_started s"
  using assms(1) c_div_window[OF assms(2-5)]
  by (auto simp: draw_cells_def mouse_cell_def Let_def sized_def)

lemma update_simulation_defined:
  assumes "sized s"
  shows "\<exists>s'. update_simulation s = Some s' \<and> sized s' \<and> (tick s' = tick s \<or> tick s' = 0) \<and>
    writable s' = writable s \<and> s_started s' = s_started s"
proof -
  from generation_total[of "cells s"] assms obtain g where
    "generation (cells s) = Some g" "length g = GRID_WIDTH * GRID_HEIGHT"
    by (auto simp: sized_def)
  then show ?thesis using assms by (auto simp: update_simulation_def sized_def)
qed

lemma frame_rest_defined:
  assumes ev: "for_each handle_event evs s = Some s1" and s1: "sized s1"
    and t: "0 \<le> tick s1" "tick s1 < INT_MAX"
    and w: "0 \<le> mx" "mx < WINDOW_WIDTH" "0 \<le> my" "my < WINDOW_HEIGHT"
  shows "\<exists>s'. frame (evs, mx, my) s = Some s' \<and> sized s' \<and> 0 \<le> tick s' \<and>
    tick s' \<le> tick s1 + 1 \<and> writable s' = writable s1 \<and> s_started s' = s_started s1"
proof -
  from draw_cells_defined[OF s1 w] obtain s2 where
    s2: "draw_cells mx my s1 = Some s2" "sized s2" "tick s2 = tick s1"
      "writable s2 = writable s1" "s_started s2 = s_started s1" by blast
  from update_simulation_defined[OF s2(2)] obtain s3 where
    s3: "update_simulation s2 = Some s3" "sized s3" "tick s3 = tick s2 \<or> tick s3 = 0"
      "writable s3 = writable s2" "s_started s3 = s_started s2" by blast
  have t3: "0 \<le> tick s3" "tick s3 \<le> tick s1" "tick s3 < INT_MAX"
    using s3(3) s2(3) t by auto
  have "end_frame s3 = Some (s3\<lparr>tick := tick s3 + 1\<rparr>)"
    using t3 by (simp add: end_frame_def incr_def)
  then have "frame (evs, mx, my) s = Some (s3\<lparr>tick := tick s3 + 1\<rparr>)"
    using ev s2(1) s3(1) by simp
  then show ?thesis using s3(2,4,5) s2(4,5) t3 by (auto simp: sized_def)
qed

lemma frame_defined:
  assumes s: "sized s" and t: "0 \<le> tick s" "tick s < INT_MAX" and p: "plain_input inp"
    and o: "list_all (opens_file (writable s)) (fst inp)"
  shows "\<exists>s'. frame inp s = Some s' \<and> sized s' \<and> 0 \<le> tick s' \<and> tick s' \<le> tick s + 1 \<and>
    writable s' = writable s"
proof -
  obtain evs mx my where inp: "inp = (evs, mx, my)" by (cases inp)
  have w: "0 \<le> mx" "mx < WINDOW_WIDTH" "0 \<le> my" "my < WINDOW_HEIGHT"
    and evs: "list_all plain_event evs"
    using p by (simp_all add: plain_input_def inp)
  have "list_all (opens_file (writable s)) evs" using o by (simp add: inp)
  from events_defined[OF s evs this] obtain s1 where
    s1: "for_each handle_event evs s = Some s1" "sized s1" "tick s1 = tick s"
      "writable s1 = writable s" by blast
  from frame_rest_defined[OF s1(1,2) _ _ w] t s1(3,4) show ?thesis
    by (auto simp: inp simp del: frame.simps)
qed

lemma main_loop_defined:
  assumes "sized s" and "0 \<le> tick s" and "tick s + int (length inps) \<le> INT_MAX"
    and "list_all plain_input inps"
    and "\<forall>inp \<in> set inps. list_all (opens_file (writable s)) (fst inp)"
  shows "\<exists>s'. main_loop inps s = Some s'"
  using assms
proof (induction inps arbitrary: s)
  case Nil
  then show ?case by simp
next
  case (Cons inp inps)
  show ?case
  proof (cases "quit s")
    case True
    then show ?thesis by simp
  next
    case False
    have "tick s < INT_MAX" using Cons.prems(3) by simp
    from frame_defined[OF Cons.prems(1,2) this, of inp] Cons.prems(4,5) obtain s1 where
      s1: "frame inp s = Some s1" "sized s1" "0 \<le> tick s1" "tick s1 \<le> tick s + 1"
        "writable s1 = writable s" by auto
    have "tick s1 + int (length inps) \<le> INT_MAX" using s1(4) Cons.prems(3) by simp
    from Cons.IH[OF s1(2,3) this] Cons.prems(4,5) s1(5) obtain s' where
      "main_loop inps s1 = Some s'" by auto
    then show ?thesis using False s1(1) by (simp del: frame.simps)
  qed
qed

text \<open>While the simulation runs no file is touched, so nothing need open.\<close>

lemma handle_event_defined_running:
  assumes "sized s" and "s_started s" and "plain_event e"
    and "\<forall>b p. e \<noteq> SDL_KEYUP SDLK_F1 b p"
  shows "\<exists>s'. handle_event e s = Some s' \<and> sized s' \<and> tick s' = tick s \<and> s_started s'"
proof (cases e)
  case (SDL_MOUSEWHEEL wy)
  then show ?thesis using assms by (auto simp: sized_def decr_def INT_MIN_def)
qed (use assms in \<open>auto simp: sized_def\<close>)

lemma events_defined_running:
  assumes "sized s" and "s_started s" and "list_all plain_event evs"
    and "\<forall>b p. SDL_KEYUP SDLK_F1 b p \<notin> set evs"
  shows "\<exists>s'. for_each handle_event evs s = Some s' \<and> sized s' \<and> tick s' = tick s \<and>
    s_started s'"
  using assms
proof (induction evs arbitrary: s)
  case Nil
  then show ?case by simp
next
  case (Cons e evs)
  have "\<forall>b p. e \<noteq> SDL_KEYUP SDLK_F1 b p" using Cons.prems(4) by auto
  from handle_event_defined_running[OF Cons.prems(1,2) _ this] Cons.prems(3) obtain s1 where
    s1: "handle_event e s = Some s1" "sized s1" "tick s1 = tick s" "s_started s1" by auto
  have "\<forall>b p. SDL_KEYUP SDLK_F1 b p \<notin> set evs" using Cons.prems(4) by auto
  from Cons.IH[OF s1(2,4) _ this] Cons.prems(3) obtain s' where
    "for_each handle_event evs s1 = Some s'" "sized s'" "tick s' = tick s1" "s_started s'"
    by auto
  then show ?case using s1 by (auto simp del: handle_event.simps)
qed

lemma main_loop_defined_running:
  assumes "sized s" and "s_started s" and "0 \<le> tick s"
    and "tick s + int (length inps) \<le> INT_MAX"
    and "list_all plain_input inps"
    and "\<forall>inp \<in> set inps. \<forall>b p. SDL_KEYUP SDLK_F1 b p \<notin> set (fst inp)"
  shows "\<exists>s'. main_loop inps s = Some s'"
  using assms
proof (induction inps arbitrary: s)
  case Nil
  then show ?case by simp
next
  case (Cons inp inps)
  show ?case
  proof (cases "quit s")
    case True
    then show ?thesis by simp
  next
    case False
    obtain evs mx my where inp: "inp = (evs, mx, my)" by (cases inp)
    have w: "0 \<le> mx" "mx < WINDOW_WIDTH" "0 \<le> my" "my < WINDOW_HEIGHT"
      and evs: "list_all plain_event evs"
      using Cons.prems(5) by (simp_all add: plain_input_def inp)
    have nf: "\<forall>b p. SDL_KEYUP SDLK_F1 b p \<notin> set evs" using Cons.prems(6) by (simp add: inp)
    from events_defined_running[OF Cons.prems(1,2) evs nf] obtain s1 where
      s1: "for_each handle_event evs s = Some s1" "sized s1" "tick s1 = tick s" "s_started s1"
      by blast
    have t1: "0 \<le> tick s1" "tick s1 < INT_MAX" using s1(3) Cons.prems(3,4) by simp_all
    from frame_rest_defined[OF s1(1,2) t1 w] s1(3,4) obtain s2 where
      s2: "frame inp s = Some s2" "sized s2" "0 \<le> tick s2" "tick s2 \<le> tick s + 1"
        "s_started s2" by (auto simp: inp simp del: frame.simps)
    have "tick s2 + int (length inps) \<le> INT_MAX" using s2(4) Cons.prems(4) by simp
    from Cons.IH[OF s2(2,5,3) this] Cons.prems(5,6) obtain s' where
      "main_loop inps s2 = Some s'" by auto
    then show ?thesis using False s2(1) by (simp del: frame.simps)
  qed
qed

lemma sized_init: "sized (init fs w)" "tick (init fs w) = 0" "writable (init fs w) = w"
  by (simp_all add: sized_def init_def)

lemma plain_input_no_load:
  assumes "list_all plain_input inps"
  shows "\<forall>inp \<in> set inps. \<forall>b p. SDL_KEYUP SDLK_F4 b (Some p) \<notin> set (fst inp)"
proof (intro ballI allI notI)
  fix inp b p assume i: "inp \<in> set inps" and e: "SDL_KEYUP SDLK_F4 b (Some p) \<in> set (fst inp)"
  obtain evs mx my where inp: "inp = (evs, mx, my)" by (cases inp)
  have "list_all plain_event evs" using assms i by (auto simp: list_all_iff plain_input_def inp)
  then have "plain_event (SDL_KEYUP SDLK_F4 b (Some p))" using e by (auto simp: list_all_iff inp)
  then show False by simp
qed

text \<open>
  C10. Run the main loop from the initial state, all cells 0. Over any inputs in which no
  file is loaded (no F4 key whose dialog returns a path), whenever the run is defined,
  the grid still has \<open>GRID_WIDTH * GRID_HEIGHT\<close> bytes and every one of them is 0 or 1.
  The run is defined over plain inputs whose saves open their files, and there the same
  holds. In a paused state, with the mouse inside the window, the left button writes
  exactly 1 into the cell under the mouse and nothing else, and the right button alone
  writes 0 there; wherever the mouse is, if the write is defined it puts 1, respectively
  0, into one cell; with no button down nothing is written. The F2 key makes every cell
  0. On any grid of bytes 0 and 1 the two passes return, the commit pass turns each byte
  that carries the REVIVE flag after the evaluation into 1 and each byte that carries
  the DIE flag into 0, and no byte of the result carries a flag. Loading is different: a
  file of bytes 2 puts the byte 2 into every cell.
\<close>

theorem cell_bytes_invariant:
  "(\<forall>inps st'.
      (\<forall>inp \<in> set inps. \<forall>b p. SDL_KEYUP SDLK_F4 b (Some p) \<notin> set (fst inp)) \<longrightarrow>
      main_loop inps (init fs w) = Some st' \<longrightarrow>
      length (cells st') = GRID_WIDTH * GRID_HEIGHT \<and> (\<forall>c \<in> set (cells st'). c = 0 \<or> c = 1)) \<and>
   (\<forall>inps. list_all plain_input inps \<longrightarrow>
      (\<forall>inp \<in> set inps. list_all (opens_file w) (fst inp)) \<longrightarrow>
      int (length inps) \<le> INT_MAX \<longrightarrow>
      (\<exists>st'. main_loop inps (init fs w) = Some st' \<and>
         length (cells st') = GRID_WIDTH * GRID_HEIGHT \<and> (\<forall>c \<in> set (cells st'). c = 0 \<or> c = 1))) \<and>
   (\<forall>st mx my. \<not> s_started st \<longrightarrow> add_btn_down st \<longrightarrow>
      length (cells st) = GRID_WIDTH * GRID_HEIGHT \<longrightarrow>
      0 \<le> mx \<longrightarrow> mx < WINDOW_WIDTH \<longrightarrow> 0 \<le> my \<longrightarrow> my < WINDOW_HEIGHT \<longrightarrow>
      draw_cells mx my st =
        Some (st\<lparr>cells := (cells st)
          [nat (mx div PIXEL_SIZE) + GRID_WIDTH * nat (my div PIXEL_SIZE) := 1]\<rparr>)) \<and>
   (\<forall>st mx my. \<not> s_started st \<longrightarrow> \<not> add_btn_down st \<longrightarrow> rem_btn_down st \<longrightarrow>
      length (cells st) = GRID_WIDTH * GRID_HEIGHT \<longrightarrow>
      0 \<le> mx \<longrightarrow> mx < WINDOW_WIDTH \<longrightarrow> 0 \<le> my \<longrightarrow> my < WINDOW_HEIGHT \<longrightarrow>
      draw_cells mx my st =
        Some (st\<lparr>cells := (cells st)
          [nat (mx div PIXEL_SIZE) + GRID_WIDTH * nat (my div PIXEL_SIZE) := 0]\<rparr>)) \<and>
   (\<forall>st mx my st'. \<not> s_started st \<longrightarrow> draw_cells mx my st = Some st' \<longrightarrow>
      (add_btn_down st \<longrightarrow> (\<exists>k<length (cells st). st' = st\<lparr>cells := (cells st)[k := 1]\<rparr>)) \<and>
      (\<not> add_btn_down st \<and> rem_btn_down st \<longrightarrow>
        (\<exists>k<length (cells st). st' = st\<lparr>cells := (cells st)[k := 0]\<rparr>)) \<and>
      (\<not> add_btn_down st \<and> \<not> rem_btn_down st \<longrightarrow> st' = st)) \<and>
   (\<forall>st box path. \<not> s_started st \<longrightarrow> length (cells st) = GRID_WIDTH * GRID_HEIGHT \<longrightarrow>
      handle_event (SDL_KEYUP SDLK_F2 box path) st =
        Some (st\<lparr>cells := replicate (GRID_WIDTH * GRID_HEIGHT) 0\<rparr>)) \<and>
   (\<forall>cs. length cs = GRID_WIDTH * GRID_HEIGHT \<longrightarrow> (\<forall>c \<in> set cs. c = 0 \<or> c = 1) \<longrightarrow>
      (\<exists>g g'. eval_pass cs = Some g \<and> commit_pass g = Some g' \<and>
         (\<forall>i<GRID_WIDTH * GRID_HEIGHT.
            (g ! i AND CELL_REVIVE \<noteq> 0 \<longrightarrow> g' ! i = 1) \<and>
            (g ! i AND CELL_DIE \<noteq> 0 \<longrightarrow> g' ! i = 0) \<and>
            (g' ! i = 0 \<or> g' ! i = 1)))) \<and>
   (\<forall>box p. handle_event (SDL_KEYUP SDLK_F4 box (Some p))
       (init [p \<mapsto> replicate (GRID_WIDTH * GRID_HEIGHT) 2] w) =
     Some ((init [p \<mapsto> replicate (GRID_WIDTH * GRID_HEIGHT) 2] w)
       \<lparr>cells := replicate (GRID_WIDTH * GRID_HEIGHT) 2\<rparr>))"
proof -
  have i: "length (cells (init fs w)) = GRID_WIDTH * GRID_HEIGHT \<and>
    (\<forall>c \<in> set (cells (init fs w)). c = 0 \<or> c = 1)" by (simp add: init_def)
  have c1: "length (cells st') = GRID_WIDTH * GRID_HEIGHT \<and> (\<forall>c \<in> set (cells st'). c = 0 \<or> c = 1)"
    if "\<forall>inp \<in> set inps. \<forall>b p. SDL_KEYUP SDLK_F4 b (Some p) \<notin> set (fst inp)"
      and "main_loop inps (init fs w) = Some st'" for inps st'
    by (rule main_loop_bytes[OF i that])
  have c2: "\<exists>st'. main_loop inps (init fs w) = Some st' \<and>
      length (cells st') = GRID_WIDTH * GRID_HEIGHT \<and> (\<forall>c \<in> set (cells st'). c = 0 \<or> c = 1)"
    if p: "list_all plain_input inps"
      and o: "\<forall>inp \<in> set inps. list_all (opens_file w) (fst inp)"
      and n: "int (length inps) \<le> INT_MAX" for inps
  proof -
    have "\<forall>inp \<in> set inps. list_all (opens_file (writable (init fs w))) (fst inp)"
      using o by (simp add: sized_init)
    from main_loop_defined[OF sized_init(1) _ _ p this] n obtain st' where
      r: "main_loop inps (init fs w) = Some st'" by (auto simp: sized_init)
    from c1[OF plain_input_no_load[OF p] r] r show ?thesis by blast
  qed
  show ?thesis
  proof (intro conjI)
    show "\<forall>inps st'.
      (\<forall>inp \<in> set inps. \<forall>b p. SDL_KEYUP SDLK_F4 b (Some p) \<notin> set (fst inp)) \<longrightarrow>
      main_loop inps (init fs w) = Some st' \<longrightarrow>
      length (cells st') = GRID_WIDTH * GRID_HEIGHT \<and> (\<forall>c \<in> set (cells st'). c = 0 \<or> c = 1)"
      using c1 by blast
    show "\<forall>inps. list_all plain_input inps \<longrightarrow>
      (\<forall>inp \<in> set inps. list_all (opens_file w) (fst inp)) \<longrightarrow>
      int (length inps) \<le> INT_MAX \<longrightarrow>
      (\<exists>st'. main_loop inps (init fs w) = Some st' \<and>
         length (cells st') = GRID_WIDTH * GRID_HEIGHT \<and> (\<forall>c \<in> set (cells st'). c = 0 \<or> c = 1))"
      using c2 by blast
    show "\<forall>st mx my. \<not> s_started st \<longrightarrow> add_btn_down st \<longrightarrow>
      length (cells st) = GRID_WIDTH * GRID_HEIGHT \<longrightarrow>
      0 \<le> mx \<longrightarrow> mx < WINDOW_WIDTH \<longrightarrow> 0 \<le> my \<longrightarrow> my < WINDOW_HEIGHT \<longrightarrow>
      draw_cells mx my st =
        Some (st\<lparr>cells := (cells st)
          [nat (mx div PIXEL_SIZE) + GRID_WIDTH * nat (my div PIXEL_SIZE) := 1]\<rparr>)"
      by (intro allI impI) (rule draw_cells_paint)
    show "\<forall>st mx my. \<not> s_started st \<longrightarrow> \<not> add_btn_down st \<longrightarrow> rem_btn_down st \<longrightarrow>
      length (cells st) = GRID_WIDTH * GRID_HEIGHT \<longrightarrow>
      0 \<le> mx \<longrightarrow> mx < WINDOW_WIDTH \<longrightarrow> 0 \<le> my \<longrightarrow> my < WINDOW_HEIGHT \<longrightarrow>
      draw_cells mx my st =
        Some (st\<lparr>cells := (cells st)
          [nat (mx div PIXEL_SIZE) + GRID_WIDTH * nat (my div PIXEL_SIZE) := 0]\<rparr>)"
      by (intro allI impI) (rule draw_cells_erase)
    show "\<forall>st mx my st'. \<not> s_started st \<longrightarrow> draw_cells mx my st = Some st' \<longrightarrow>
      (add_btn_down st \<longrightarrow> (\<exists>k<length (cells st). st' = st\<lparr>cells := (cells st)[k := 1]\<rparr>)) \<and>
      (\<not> add_btn_down st \<and> rem_btn_down st \<longrightarrow>
        (\<exists>k<length (cells st). st' = st\<lparr>cells := (cells st)[k := 0]\<rparr>)) \<and>
      (\<not> add_btn_down st \<and> \<not> rem_btn_down st \<longrightarrow> st' = st)"
      by (intro allI impI) (rule draw_cells_forms)
    show "\<forall>st box path. \<not> s_started st \<longrightarrow> length (cells st) = GRID_WIDTH * GRID_HEIGHT \<longrightarrow>
      handle_event (SDL_KEYUP SDLK_F2 box path) st =
        Some (st\<lparr>cells := replicate (GRID_WIDTH * GRID_HEIGHT) 0\<rparr>)"
      by (intro allI impI) (rule clear_event)
    show "\<forall>cs. length cs = GRID_WIDTH * GRID_HEIGHT \<longrightarrow> (\<forall>c \<in> set cs. c = 0 \<or> c = 1) \<longrightarrow>
      (\<exists>g g'. eval_pass cs = Some g \<and> commit_pass g = Some g' \<and>
         (\<forall>i<GRID_WIDTH * GRID_HEIGHT.
            (g ! i AND CELL_REVIVE \<noteq> 0 \<longrightarrow> g' ! i = 1) \<and>
            (g ! i AND CELL_DIE \<noteq> 0 \<longrightarrow> g' ! i = 0) \<and>
            (g' ! i = 0 \<or> g' ! i = 1)))"
      by (intro allI impI) (rule passes_on_bytes)
    show "\<forall>box p. handle_event (SDL_KEYUP SDLK_F4 box (Some p))
       (init [p \<mapsto> replicate (GRID_WIDTH * GRID_HEIGHT) 2] w) =
     Some ((init [p \<mapsto> replicate (GRID_WIDTH * GRID_HEIGHT) 2] w)
       \<lparr>cells := replicate (GRID_WIDTH * GRID_HEIGHT) 2\<rparr>)"
      by (intro allI) (rule load_other_bytes)
  qed
qed

theorem cell_bytes_invariant_witness:
  "(\<exists>st'. main_loop
      [([SDL_MOUSEBUTTONDOWN SDL_BUTTON_LEFT], 10, 10),
       ([SDL_MOUSEBUTTONUP SDL_BUTTON_LEFT, SDL_KEYUP SDLK_F1 None None], 10, 10),
       ([], 0, 0)] (init Map.empty (\<lambda>p. None)) = Some st' \<and>
     s_started st' \<and> tick st' = 1 \<and>
     length (cells st') = GRID_WIDTH * GRID_HEIGHT \<and> set (cells st') \<subseteq> {0, 1}) \<and>
   draw_cells 10 10 ((init Map.empty (\<lambda>p. None))\<lparr>add_btn_down := True\<rparr>) =
     Some ((init Map.empty (\<lambda>p. None))
       \<lparr>add_btn_down := True, cells := (replicate (GRID_WIDTH * GRID_HEIGHT) 0)[514 := 1]\<rparr>) \<and>
   draw_cells 10 10 ((init Map.empty (\<lambda>p. None))
       \<lparr>rem_btn_down := True, cells := replicate (GRID_WIDTH * GRID_HEIGHT) 1\<rparr>) =
     Some ((init Map.empty (\<lambda>p. None))
       \<lparr>rem_btn_down := True, cells := (replicate (GRID_WIDTH * GRID_HEIGHT) 1)[514 := 0]\<rparr>) \<and>
   handle_event (SDL_KEYUP SDLK_F2 None None)
       ((init Map.empty (\<lambda>p. None))\<lparr>cells := replicate (GRID_WIDTH * GRID_HEIGHT) 1\<rparr>) =
     Some ((init Map.empty (\<lambda>p. None))\<lparr>cells := replicate (GRID_WIDTH * GRID_HEIGHT) 0\<rparr>)"
proof -
  let ?i = "init Map.empty (\<lambda>p. None)"
  let ?z = "replicate (GRID_WIDTH * GRID_HEIGHT) (0::u8)"
  let ?o = "replicate (GRID_WIDTH * GRID_HEIGHT) (1::u8)"
  let ?s1 = "?i\<lparr>add_btn_down := True, cells := ?z[514 := 1], tick := 1\<rparr>"
  let ?s2 = "?s1\<lparr>add_btn_down := False, s_started := True, previous_simul := ?z[514 := 1],
    tick := 2\<rparr>"
  note inst = cell_bytes_invariant[of Map.empty "\<lambda>p. None"]
  have cd: "c_div 10 PIXEL_SIZE = 2" by (simp add: c_div_def PIXEL_SIZE_def)
  have k: "2 + int GRID_WIDTH * 2 = 514" "(514::int) < int GRID_WIDTH * int GRID_HEIGHT"
    by (simp_all add: GRID_WIDTH_def GRID_HEIGHT_def)
  have f1: "frame ([SDL_MOUSEBUTTONDOWN SDL_BUTTON_LEFT], 10, 10) ?i = Some ?s1"
    by (simp add: init_def draw_cells_def mouse_cell_def cd Let_def CELL_ALIVE_def
        update_simulation_def end_frame_def incr_def INT_MAX_def k)
  have f2: "frame ([SDL_MOUSEBUTTONUP SDL_BUTTON_LEFT, SDL_KEYUP SDLK_F1 None None], 10, 10) ?s1
      = Some ?s2"
    by (simp add: init_def draw_cells_def update_simulation_def end_frame_def incr_def
        INT_MAX_def)
  obtain g where g: "generation (?z[514 := 1]) = Some g"
    using generation_total[of "?z[514 := 1]"] by auto
  have f3: "frame ([], 0, 0) ?s2 = Some (?s2\<lparr>cells := g, tick := 1\<rparr>)"
    by (simp add: init_def draw_cells_def update_simulation_def end_frame_def incr_def
        INT_MAX_def g)
  have r: "main_loop
      [([SDL_MOUSEBUTTONDOWN SDL_BUTTON_LEFT], 10, 10),
       ([SDL_MOUSEBUTTONUP SDL_BUTTON_LEFT, SDL_KEYUP SDLK_F1 None None], 10, 10),
       ([], 0, 0)] ?i = Some (?s2\<lparr>cells := g, tick := 1\<rparr>)"
    using f1 f2 f3 by (simp add: init_def del: frame.simps)
  have n: "\<forall>inp \<in> set [([SDL_MOUSEBUTTONDOWN SDL_BUTTON_LEFT], 10, 10),
       ([SDL_MOUSEBUTTONUP SDL_BUTTON_LEFT, SDL_KEYUP SDLK_F1 None None], 10, 10),
       ([], 0, 0)]. \<forall>b p. SDL_KEYUP SDLK_F4 b (Some p) \<notin> set (fst (inp :: input))"
    by simp
  from inst[THEN conjunct1, THEN spec, THEN spec, THEN mp, THEN mp, OF n r] r
  have 1: "\<exists>st'. main_loop
      [([SDL_MOUSEBUTTONDOWN SDL_BUTTON_LEFT], 10, 10),
       ([SDL_MOUSEBUTTONUP SDL_BUTTON_LEFT, SDL_KEYUP SDLK_F1 None None], 10, 10),
       ([], 0, 0)] ?i = Some st' \<and>
     s_started st' \<and> tick st' = 1 \<and>
     length (cells st') = GRID_WIDTH * GRID_HEIGHT \<and> set (cells st') \<subseteq> {0, 1}"
    by auto
  have ix: "nat (10 div PIXEL_SIZE) + GRID_WIDTH * nat (10 div PIXEL_SIZE) = 514"
    by (simp add: PIXEL_SIZE_def GRID_WIDTH_def)
  have win: "(0::int) \<le> 10" "10 < WINDOW_WIDTH" "10 < WINDOW_HEIGHT"
    by (simp_all add: WINDOW_WIDTH_def WINDOW_HEIGHT_def)
  let ?p = "?i\<lparr>add_btn_down := True\<rparr>"
  have "\<not> s_started ?p" "add_btn_down ?p" "length (cells ?p) = GRID_WIDTH * GRID_HEIGHT"
    by (simp_all add: init_def)
  from inst[THEN conjunct2, THEN conjunct2, THEN conjunct1, THEN spec, THEN spec, THEN spec,
      THEN mp, THEN mp, THEN mp, THEN mp, THEN mp, THEN mp, THEN mp,
      OF this win(1,2) win(1,3)]
  have 2: "draw_cells 10 10 ?p = Some (?i\<lparr>add_btn_down := True, cells := ?z[514 := 1]\<rparr>)"
    unfolding ix by (simp add: init_def)
  let ?e = "?i\<lparr>rem_btn_down := True, cells := ?o\<rparr>"
  have "\<not> s_started ?e" "\<not> add_btn_down ?e" "rem_btn_down ?e"
    "length (cells ?e) = GRID_WIDTH * GRID_HEIGHT"
    by (simp_all add: init_def)
  from inst[THEN conjunct2, THEN conjunct2, THEN conjunct2, THEN conjunct1, THEN spec,
      THEN spec, THEN spec, THEN mp, THEN mp, THEN mp, THEN mp, THEN mp, THEN mp, THEN mp,
      THEN mp, OF this win(1,2) win(1,3)]
  have 3: "draw_cells 10 10 ?e = Some (?i\<lparr>rem_btn_down := True, cells := ?o[514 := 0]\<rparr>)"
    unfolding ix by (simp add: init_def)
  let ?c = "?i\<lparr>cells := ?o\<rparr>"
  have "\<not> s_started ?c" "length (cells ?c) = GRID_WIDTH * GRID_HEIGHT"
    by (simp_all add: init_def)
  from inst[THEN conjunct2, THEN conjunct2, THEN conjunct2, THEN conjunct2, THEN conjunct2,
      THEN conjunct1, THEN spec, THEN spec, THEN spec, THEN mp, THEN mp, OF this, of None None]
  have 4: "handle_event (SDL_KEYUP SDLK_F2 None None) ?c = Some (?i\<lparr>cells := ?z\<rparr>)"
    by (simp add: init_def)
  from 1 2 3 4 show ?thesis by (intro conjI)
qed

section \<open>The snapshot taken at the start\<close>

lemma start_event:
  assumes "\<not> s_started st"
  shows "handle_event (SDL_KEYUP SDLK_F1 box path) st =
    Some (st\<lparr>s_started := True, previous_simul := cells st\<rparr>)"
  using assms by simp

text \<open>
  C6. Let the F1 key arrive in a paused state \<open>st\<close>. Its handler sets \<open>s_started\<close>
  and copies \<open>cells\<close> into \<open>previous_simul\<close>, before anything else runs. Whatever
  follows in that frame and in any number of later frames, as long as F1 is not pressed
  again, if the run is defined then the simulation is still running at its end and
  \<open>previous_simul\<close> is still the grid \<open>cells st\<close> of the instant before the start.
  The run is defined when the arrays have their sizes, the inputs are plain and the tick
  counter stays below \<open>INT_MAX\<close>.
\<close>

theorem snapshot_survives_stepping:
  assumes paused: "\<not> s_started st" and nq: "\<not> quit st"
  shows "handle_event (SDL_KEYUP SDLK_F1 box path) st =
      Some (st\<lparr>s_started := True, previous_simul := cells st\<rparr>) \<and>
    (\<forall>rest mx my inps st'.
       (\<forall>inp \<in> set ((rest, mx, my) # inps). \<forall>b p. SDL_KEYUP SDLK_F1 b p \<notin> set (fst inp)) \<longrightarrow>
       main_loop ((SDL_KEYUP SDLK_F1 box path # rest, mx, my) # inps) st = Some st' \<longrightarrow>
       previous_simul st' = cells st \<and> s_started st') \<and>
    (\<forall>rest mx my inps.
       (\<forall>inp \<in> set ((rest, mx, my) # inps). \<forall>b p. SDL_KEYUP SDLK_F1 b p \<notin> set (fst inp)) \<longrightarrow>
       sized st \<longrightarrow> list_all plain_input ((rest, mx, my) # inps) \<longrightarrow>
       0 \<le> tick st \<longrightarrow> tick st + int (length inps) < INT_MAX \<longrightarrow>
       (\<exists>st'. main_loop ((SDL_KEYUP SDLK_F1 box path # rest, mx, my) # inps) st = Some st' \<and>
          previous_simul st' = cells st \<and> s_started st'))"
proof -
  let ?s1 = "st\<lparr>s_started := True, previous_simul := cells st\<rparr>"
  have h: "handle_event (SDL_KEYUP SDLK_F1 box path) st = Some ?s1"
    by (rule start_event[OF paused])
  have kept: "previous_simul st' = cells st \<and> s_started st'"
    if nof1: "\<forall>inp \<in> set ((rest, mx, my) # inps). \<forall>b p. SDL_KEYUP SDLK_F1 b p \<notin> set (fst inp)"
      and run: "main_loop ((SDL_KEYUP SDLK_F1 box path # rest, mx, my) # inps) st = Some st'"
    for rest mx my inps st'
  proof -
    have "frame (SDL_KEYUP SDLK_F1 box path # rest, mx, my) st = frame (rest, mx, my) ?s1"
      using h by (simp del: handle_event.simps)
    then have "main_loop ((rest, mx, my) # inps) ?s1 = Some st'"
      using run nq by (simp del: handle_event.simps)
    from main_loop_running[OF _ nof1 this] show ?thesis by simp
  qed
  have "\<exists>st'. main_loop ((SDL_KEYUP SDLK_F1 box path # rest, mx, my) # inps) st = Some st' \<and>
      previous_simul st' = cells st \<and> s_started st'"
    if nof1: "\<forall>inp \<in> set ((rest, mx, my) # inps). \<forall>b p. SDL_KEYUP SDLK_F1 b p \<notin> set (fst inp)"
      and sz: "sized st" and pl: "list_all plain_input ((rest, mx, my) # inps)"
      and t: "0 \<le> tick st" "tick st + int (length inps) < INT_MAX"
    for rest mx my inps
  proof -
    have s1: "sized ?s1" "s_started ?s1" "0 \<le> tick ?s1"
      "tick ?s1 + int (length ((rest, mx, my) # inps)) \<le> INT_MAX"
      using sz t by (simp_all add: sized_def)
    from main_loop_defined_running[OF s1 pl nof1] obtain st' where
      "main_loop ((rest, mx, my) # inps) ?s1 = Some st'" by blast
    moreover have "frame (SDL_KEYUP SDLK_F1 box path # rest, mx, my) st =
        frame (rest, mx, my) ?s1"
      using h by (simp del: handle_event.simps)
    ultimately have
      "main_loop ((SDL_KEYUP SDLK_F1 box path # rest, mx, my) # inps) st = Some st'"
      using nq s1(2) by (simp del: handle_event.simps frame.simps)
    then show ?thesis using kept[OF nof1] by blast
  qed
  then show ?thesis using h kept by blast
qed

theorem snapshot_survives_stepping_witness:
  "\<exists>st'. main_loop [([SDL_KEYUP SDLK_F1 None None], 0, 0), ([], 0, 0), ([], 0, 0)]
       ((init Map.empty (\<lambda>p. None))\<lparr>cells := blinker_h 5 7\<rparr>) = Some st' \<and>
     cells st' = blinker_v 5 7 \<and> previous_simul st' = blinker_h 5 7"
proof -
  let ?st = "(init Map.empty (\<lambda>p. None))\<lparr>cells := blinker_h 5 7\<rparr>"
  have g: "generation (blinker_h 5 7) = Some (blinker_v 5 7)"
    by (rule generation_blinker_h) (simp_all add: GRID_WIDTH_def GRID_HEIGHT_def)
  have r: "main_loop [([SDL_KEYUP SDLK_F1 None None], 0, 0), ([], 0, 0), ([], 0, 0)] ?st =
    Some (?st\<lparr>s_started := True, previous_simul := blinker_h 5 7, cells := blinker_v 5 7,
      tick := 1\<rparr>)"
    by (simp add: init_def draw_cells_def update_simulation_def end_frame_def incr_def
        INT_MAX_def g)
  have p: "\<not> s_started ?st" "\<not> quit ?st" by (simp_all add: init_def)
  have n: "\<forall>inp \<in> set (([], 0, 0) # [([], 0, 0), ([], 0, 0)]).
      \<forall>b p. SDL_KEYUP SDLK_F1 b p \<notin> set (fst (inp :: input))" by simp
  from snapshot_survives_stepping[OF p, of None None, THEN conjunct2, THEN conjunct1,
      THEN spec, THEN spec, THEN spec, THEN spec, THEN spec, THEN mp, THEN mp, OF n r] r
  show ?thesis by simp
qed

end
